theory Spec2Isabelle
  imports Complex_Main "HOL-Library.Multiset"
begin

section \<open>Shallow embedding of the vivarium process and environment code\<close>

text \<open>
  Conventions of the embedding.
  \<^item> Counts are \<open>int\<close> or \<open>nat\<close>. A Python float is a rational number; where the
    source accumulates floats (\<open>+=\<close> on a clock or on a state variable) or divides
    them, the operation is \<open>double_add\<close> or \<open>double_div\<close>, the exact result rounded
    as IEEE 754 binary64 arithmetic rounds it. Comparisons of floats are exact.
  \<^item> A Python dict is a map \<open>'k \<rightharpoonup> 'v\<close>; where the source iterates over a dict
    (\<open>items()\<close>, \<open>values()\<close>) or builds it key by key, the dict is an association
    list in insertion order, written with \<open>dict_set\<close>.
  \<^item> An exception is a value: functions that can raise return \<open>py_error + 'a\<close>.
  \<^item> Instance attributes that a method assigns are passed in and returned.
  \<^item> Draws of a random number generator are arguments.
  \<^item> A method \<open>m\<close> of class \<open>C\<close> is the constant \<open>C_m\<close> where several classes
    have a method of that name.
\<close>

datatype py_error = KeyError | IndexError | ZeroDivisionError | AssertionError

datatype py_value =
    PyNum rat
  | PyBool bool
  | PyStr string
  | PyTuple "string list"
  | PyDict "(string \<times> py_value) list"

text \<open>\<^verbatim>\<open>d[k] = v\<close> on an insertion-ordered dict: an existing key keeps its place.\<close>

fun dict_set :: "('k \<times> 'v) list \<Rightarrow> 'k \<Rightarrow> 'v \<Rightarrow> ('k \<times> 'v) list" where
  "dict_set [] k v = [(k, v)]"
| "dict_set ((k', v') # d) k v = (if k' = k then (k, v) # d else (k', v') # dict_set d k v)"

definition dict_get :: "('k \<times> 'v) list \<Rightarrow> 'k \<Rightarrow> 'v option" where
  "dict_get d k = map_of d k"

definition dict_keys :: "('k \<times> 'v) list \<Rightarrow> 'k list" where
  "dict_keys d = map fst d"

definition dict_del :: "('k \<times> 'v) list \<Rightarrow> 'k \<Rightarrow> ('k \<times> 'v) list" where
  "dict_del d k = filter (\<lambda>kv. fst kv \<noteq> k) d"

subsection \<open>Python floats: IEEE 754 binary64 arithmetic\<close>

text \<open>
  An operation on Python floats returns the exact result rounded to the nearest number
  with a significand of 53 bits, a tie going to the even significand. For \<open>x\<close> with
  \<open>2^k \<le> |x| < 2^(k+1)\<close> the numbers of that form are the integer multiples of
  \<open>2^(k-52)\<close>; below \<open>2^-1022\<close> (subnormal numbers) they are the multiples of \<open>2^-1074\<close>.
  \<open>floor_log2 x\<close> is the \<open>k\<close> of a positive \<open>x\<close>. The exponent is not bounded above:
  a result of magnitude \<open>2^1024\<close> or more, which IEEE arithmetic rounds to infinity, is
  outside the model.
\<close>

function log2_up :: "rat \<Rightarrow> nat" where
  "log2_up x = (if x < 2 then 0 else Suc (log2_up (x / 2)))"
  by pat_completeness auto
termination
proof (relation "measure (\<lambda>x. nat \<lfloor>x\<rfloor>)")
  show "wf (measure (\<lambda>x::rat. nat \<lfloor>x\<rfloor>))" by simp
next
  fix x :: rat
  assume "\<not> x < 2"
  then have "x / 2 \<le> x - 1" by simp
  then have "\<lfloor>x / 2\<rfloor> \<le> \<lfloor>x - 1\<rfloor>" by (rule floor_mono)
  moreover have "0 < \<lfloor>x\<rfloor>" using \<open>\<not> x < 2\<close> by linarith
  ultimately show "(x / 2, x) \<in> measure (\<lambda>x. nat \<lfloor>x\<rfloor>)" by simp
qed

declare log2_up.simps [simp del]

definition floor_log2 :: "rat \<Rightarrow> int" where
  "floor_log2 x =
     (if 1 \<le> x then int (log2_up x)
      else (let n = log2_up (1 / x) in if 2 ^ n = 1 / x then - int n else - int n - 1))"

definition round_half_even :: "rat \<Rightarrow> int" where
  "round_half_even m =
     (let f = \<lfloor>m\<rfloor>; r = m - of_int f
      in if r < 1 / 2 then f else if 1 / 2 < r then f + 1 else if even f then f else f + 1)"

definition double_exponent :: "rat \<Rightarrow> int" where
  "double_exponent x = max (floor_log2 \<bar>x\<bar> - 52) (- 1074)"

definition round_double :: "rat \<Rightarrow> rat" where
  "round_double x =
     (if x = 0 then 0
      else of_int (round_half_even (x / 2 powi double_exponent x)) * 2 powi double_exponent x)"

text \<open>The finite doubles: the numbers that rounding leaves as they are, below \<open>2^1024\<close>.\<close>

definition is_double :: "rat \<Rightarrow> bool" where
  "is_double x = (round_double x = x \<and> \<bar>x\<bar> < 2 powi 1024)"

definition double_add :: "rat \<Rightarrow> rat \<Rightarrow> rat" where
  "double_add a b = round_double (a + b)"

definition double_div :: "rat \<Rightarrow> rat \<Rightarrow> rat" where
  "double_div a b = round_double (a / b)"

subsection \<open>environment/lattice.py, environment/surrogates/transport\_kinetics.py:
  \<open>run_incremental\<close>\<close>

text \<open>
  \<^verbatim>\<open>
  def run_incremental(self, run_until):
      while self._time < run_until:
          self._time += self._timestep
          self.evolve()
  \<close>
  \<open>TransportKinetics.run_incremental\<close> is the same loop over \<open>self.local_time\<close>,
  \<open>self.timestep\<close> and \<open>self.update_state()\<close>. The step \<open>evolve\<close> reads the clock
  that the loop has just advanced, so it is a function of the new time and of the rest
  of the instance state \<open>'e\<close>. The time step is the float \<open>1.0\<close> in both classes, so
  the clock is advanced by an addition of floats. The loop need not stop (a time step
  that is not positive, or a clock so large that adding the step does not change it),
  so it is a partial function: \<open>None\<close> is the loop that never returns.
\<close>

partial_function (option) run_incremental ::
  "(rat \<Rightarrow> 'e \<Rightarrow> 'e) \<Rightarrow> rat \<Rightarrow> rat \<Rightarrow> rat \<Rightarrow> 'e \<Rightarrow> (rat \<times> 'e) option" where
  "run_incremental evolve timestep run_until time env =
     (if time < run_until
      then (let time' = double_add time timestep in
            run_incremental evolve timestep run_until time' (evolve time' env))
      else Some (time, env))"

declare run_incremental.simps [code]

text \<open>The number of steps the loop is expected to take, and the times of those steps.\<close>

definition steps_needed :: "rat \<Rightarrow> rat \<Rightarrow> rat \<Rightarrow> nat" where
  "steps_needed t0 d run_until = nat \<lceil>(run_until - t0) / d\<rceil>"

definition invocation_times :: "rat \<Rightarrow> rat \<Rightarrow> nat \<Rightarrow> rat list" where
  "invocation_times t0 d n = map (\<lambda>k. t0 + of_nat k * d) [1..<Suc n]"

subsection \<open>Dividers\<close>

text \<open>
  \<open>DeriveConcentrations.ports_schema\<close> tags every count with
  \<^verbatim>\<open>'_divider': 'split'\<close> and every concentration with \<^verbatim>\<open>'_divider': 'set'\<close>,
  in dict comprehensions over \<open>self.concentration_keys\<close>: a key that the list repeats
  has one entry.
\<close>

datatype divider = Split | SetDivider | Zero | AssertNoDivide

definition counts_schema :: "string list \<Rightarrow> (string \<times> divider) list" where
  "counts_schema concentration_keys =
     fold (\<lambda>concentration schema. dict_set schema concentration Split) concentration_keys []"

definition concentrations_schema :: "string list \<Rightarrow> (string \<times> divider) list" where
  "concentrations_schema concentration_keys =
     fold (\<lambda>concentration schema. dict_set schema concentration SetDivider)
       concentration_keys []"

text \<open>
  Modelled from the spec: the divider registry (the functions behind the names
  \<open>split\<close>, \<open>set\<close>, \<open>zero\<close> and \<open>assert_no_divide\<close>) is not among the source files.
  The spec gives: \<open>split\<close> apportions an integer count by floor and remainder so that the
  two halves sum to the original, the remainder going to a fixed side (7 gives 4 and 3);
  \<open>set\<close> gives both daughters the parent's value; \<open>zero\<close> starts both daughters from a
  declared default; \<open>assert_no_divide\<close> makes division an error.
\<close>

definition divide_split :: "nat \<Rightarrow> nat \<times> nat" where
  "divide_split v = (v div 2 + v mod 2, v div 2)"

fun divide_value :: "divider \<Rightarrow> nat \<Rightarrow> nat \<Rightarrow> py_error + nat \<times> nat" where
  "divide_value Split dflt v = Inr (divide_split v)"
| "divide_value SetDivider dflt v = Inr (v, v)"
| "divide_value Zero dflt v = Inr (dflt, dflt)"
| "divide_value AssertNoDivide dflt v = Inl AssertionError"

subsection \<open>vivarium/utils/dict\_utils.py: \<open>merge_dicts\<close>\<close>



subsection \<open>vivarium/processes/convenience\_kinetics.py: applying an update with \<open>+=\<close>\<close>

text \<open>
  The loop of \<open>test_convenience_kinetics\<close> that applies one update to the state:
  \<^verbatim>\<open>
  for role_id, states_update in update.items():
      if role_id not in skip_roles:
          for state_id, change in states_update.items():
              state[role_id][state_id] += change
  \<close>
  The state is a dict of dicts of floats (the initial state of the test holds \<open>1.0\<close>
  and the changes are products of floats), so \<open>+=\<close> is an addition of floats;
  \<open>state[role_id][state_id] += change\<close> raises \<open>KeyError\<close> when the role or the state id
  is missing.
\<close>

type_synonym role_states = "string \<rightharpoonup> (string \<rightharpoonup> rat)"

definition add_change :: "role_states \<Rightarrow> string \<Rightarrow> string \<times> rat \<Rightarrow> py_error + role_states" where
  "add_change state role_id sc =
     (case state role_id of
        None \<Rightarrow> Inl KeyError
      | Some states \<Rightarrow>
          (case states (fst sc) of
             None \<Rightarrow> Inl KeyError
           | Some v \<Rightarrow> Inr (state(role_id \<mapsto> states(fst sc \<mapsto> double_add v (snd sc))))))"





definition step_leaf ::
  "string \<times> string \<times> rat \<Rightarrow> py_error + role_states \<Rightarrow> py_error + role_states" where
  "step_leaf l r = (case r of Inl e \<Rightarrow> Inl e | Inr state \<Rightarrow> add_change state (fst l) (snd l))"


subsection \<open>vivarium/processes/derive\_concentrations.py: \<open>DeriveConcentrations.next_update\<close>\<close>

text \<open>
  \<^verbatim>\<open>
  mmol_to_counts = states['global']['mmol_to_counts']
  counts = states['counts']
  concentrations = {}
  for molecule, count in counts.items():
      concentrations[molecule] = count / mmol_to_counts
  for molecule, concentration in concentrations.items():
      assert concentration >= 0, 'derived {} concentration < 0'.format(molecule)
  return {'concentrations': concentrations}
  \<close>
  \<open>counts\<close> is the list of items of the dict (its keys are distinct, so every
  assignment of the first loop adds a key). The division is true division and raises
  on a zero divisor.
\<close>

definition derive_value :: "rat \<Rightarrow> rat \<Rightarrow> py_error + rat" where
  "derive_value mmol_to_counts cnt =
     (if mmol_to_counts = 0 then Inl ZeroDivisionError else Inr (cnt / mmol_to_counts))"

fun derive_all :: "rat \<Rightarrow> (string \<times> rat) list \<Rightarrow> py_error + (string \<times> rat) list" where
  "derive_all mmol_to_counts [] = Inr []"
| "derive_all mmol_to_counts ((molecule, cnt) # counts) =
     (case derive_value mmol_to_counts cnt of
        Inl e \<Rightarrow> Inl e
      | Inr concentration \<Rightarrow>
          (case derive_all mmol_to_counts counts of
             Inl e \<Rightarrow> Inl e
           | Inr concentrations \<Rightarrow> Inr ((molecule, concentration) # concentrations)))"

fun assert_non_negative :: "(string \<times> rat) list \<Rightarrow> py_error + unit" where
  "assert_non_negative [] = Inr ()"
| "assert_non_negative ((molecule, concentration) # concentrations) =
     (if concentration \<ge> 0 then assert_non_negative concentrations else Inl AssertionError)"


subsection \<open>environment/lattice.py: \<open>EnvironmentSpatialLattice.evolve\<close>\<close>








subsection \<open>vivarium/processes/timeline.py: \<open>TimelineProcess.next_update\<close>\<close>

text \<open>
  \<^verbatim>\<open>
  def next_update(self, timestep, states):
      time = states['global']['time']
      update = {'global': {'time': timestep}}
      for (t, change_dict) in self.timeline:
          if time >= t:
              for state, value in change_dict.items():
                  port = state[0]
                  variable = state[1]
                  if port not in update:
                      update[port] = {}
                  update[port][variable] = {
                      '_value': value,
                      '_updater': 'set'}
              self.timeline.pop(0)
      return update
  \<close>
  The timeline is a list of events \<open>(t, change_dict)\<close>; a change dict maps
  \<open>(port, variable)\<close> to a value. The method assigns \<open>self.timeline\<close>, so the model
  takes the timeline and returns the update together with the timeline it leaves.

  The \<open>for\<close> statement iterates over the very list that its body pops. Python's list
  iterator holds an index: each round it stops if the index has reached the current
  length of the list, and otherwise yields the element at the index and advances the
  index. \<open>timeline_loop\<close> is that iteration, with the index \<open>i\<close> explicit.
\<close>

type_synonym change_dict = "((string \<times> string) \<times> py_value) list"
type_synonym timeline = "(rat \<times> change_dict) list"
type_synonym update = "(string \<times> (string \<times> py_value) list) list"

definition set_state :: "(string \<times> string) \<times> py_value \<Rightarrow> update \<Rightarrow> update" where
  "set_state sv update =
     (let port = fst (fst sv); variable = snd (fst sv); value = snd sv;
          update' = (if port \<notin> set (dict_keys update) then dict_set update port [] else update)
      in case dict_get update' port of
           None \<Rightarrow> update'
         | Some d \<Rightarrow> dict_set update' port
             (dict_set d variable (PyDict [(''_value'', value), (''_updater'', PyStr ''set'')])))"

function timeline_loop :: "rat \<Rightarrow> nat \<Rightarrow> timeline \<Rightarrow> update \<Rightarrow> update \<times> timeline" where
  "timeline_loop time i timeline update =
     (if i < length timeline
      then (let (t, change_dict) = timeline ! i in
            if time \<ge> t
            then timeline_loop time (Suc i) (tl timeline) (fold set_state change_dict update)
            else timeline_loop time (Suc i) timeline update)
      else (update, timeline))"
  by pat_completeness auto
termination
  by (relation "measure (\<lambda>(time, i, timeline, update). length timeline - i)") auto

declare timeline_loop.simps [simp del]

definition TimelineProcess_next_update :: "timeline \<Rightarrow> rat \<Rightarrow> rat \<Rightarrow> update \<times> timeline" where
  "TimelineProcess_next_update timeline timestep time =
     timeline_loop time 0 timeline [(''global'', [(''time'', PyNum timestep)])]"

subsection \<open>vivarium/processes/tumors.py: \<open>TumorProcess.next_update\<close>\<close>

text \<open>
  The instance holds the rates of \<open>self.parameters\<close> and \<open>self.self_path\<close>, which
  \<open>__init__\<close> reads from the configuration (the default is the empty tuple). The
  method reads \<open>states['internal']['cell_state']\<close> and draws from
  \<open>random.uniform(0, 1)\<close> at most twice: \<open>u1\<close> is the draw of the death test, \<open>u2\<close>
  the draw of the division test. It returns one of three dicts.
  \<^verbatim>\<open>
  if cell_state == 'PDL1n':
      if random.uniform(0, 1) < self.parameters['death_PDL1n'] * timestep:
          return {'_delete': {'path': self.self_path}}
  elif cell_state == 'PDL1p':
      if random.uniform(0, 1) < self.parameters['death_PDL1p'] * timestep:
          return {'_delete': {'path': self.self_path}}
  if cell_state == 'PDL1n':
      if random.uniform(0, 1) < self.parameters['PDL1n_growth'] * timestep:
          return {'globals': {'divide': True}}
  elif cell_state == 'PDL1p':
      pass
  new_cell_state = cell_state
  MHCI = 0
  PDL1 = 0
  return {'internal': {'cell_state': new_cell_state},
          'boundary': {'MHCI': MHCI, 'PDL1': PDL1}}
  \<close>
\<close>

record tumor_process =
  death_PDL1p :: rat
  death_PDL1n :: rat
  PDL1n_growth :: rat
  self_path :: "string list"

definition delete_directive :: "tumor_process \<Rightarrow> (string \<times> py_value) list" where
  "delete_directive self = [(''_delete'', PyDict [(''path'', PyTuple (self_path self))])]"

definition TumorProcess_next_update ::
  "tumor_process \<Rightarrow> rat \<Rightarrow> string \<Rightarrow> rat \<Rightarrow> rat \<Rightarrow> (string \<times> py_value) list" where
  "TumorProcess_next_update self timestep cell_state u1 u2 =
     (if cell_state = ''PDL1n'' \<and> u1 < death_PDL1n self * timestep
        then delete_directive self
      else if cell_state \<noteq> ''PDL1n'' \<and> cell_state = ''PDL1p''
              \<and> u1 < death_PDL1p self * timestep
        then delete_directive self
      else if cell_state = ''PDL1n'' \<and> u2 < PDL1n_growth self * timestep
        then [(''globals'', PyDict [(''divide'', PyBool True)])]
      else (let new_cell_state = cell_state; MHCI = 0; PDL1 = 0 in
        [(''internal'', PyDict [(''cell_state'', PyStr new_cell_state)]),
         (''boundary'', PyDict [(''MHCI'', PyNum MHCI), (''PDL1'', PyNum PDL1)])]))"

text \<open>The port names that \<open>TumorProcess.ports_schema\<close> declares.\<close>

definition tumor_ports :: "string list" where
  "tumor_ports = [''globals'', ''internal'', ''boundary'', ''neighbors'']"

subsection \<open>vivarium/processes/transcription.py: \<open>Transcription.next_update\<close>\<close>

text \<open>
  \<^verbatim>\<open>
  def choose_element(elements):
      if elements:
          choice = np.random.choice(len(elements), 1)
          return list(elements)[int(choice)]
  \<close>
  A Python set is a list without duplicates. \<open>np.random.choice(n, 1)\<close> draws an index
  below \<open>n\<close>: the draw \<open>r\<close> of the generator is reduced to that range. On an empty
  collection the function falls through and returns \<open>None\<close>.
\<close>

definition choose_element :: "'d list \<Rightarrow> nat \<Rightarrow> 'd option" where
  "choose_element elements r =
     (if elements \<noteq> [] then Some (elements ! (r mod length elements)) else None)"

text \<open>\<open>set.add\<close> on a set kept as a list without duplicates.\<close>

definition set_add :: "'d list \<Rightarrow> 'd \<Rightarrow> 'd list" where
  "set_add s x = (if x \<in> set s then s else s @ [x])"

text \<open>Python's \<open>int(x)\<close> on a number truncates towards zero.\<close>

definition py_int :: "rat \<Rightarrow> int" where
  "py_int x = (if 0 \<le> x then \<lfloor>x\<rfloor> else \<lceil>x\<rceil>)"

text \<open>
  The classes \<open>Chromosome\<close> and \<open>Rnap\<close> (\<open>vivarium.states.chromosome\<close>),
  \<open>Elongation\<close> (\<open>vivarium.utils.polymerize\<close>) and \<open>StochasticSystem\<close> (the
  \<open>arrow\<close> library) are not among the source files. What \<open>next_update\<close> calls on them
  is a record of parameters. \<open>'c\<close> is the state of the chromosome object together
  with the \<open>Elongation\<close> object and the monomer limits that the method threads through
  \<open>elongate\<close>; \<open>'d\<close> is the type of domain ids and \<open>'r\<close> the type of RNAP objects.
  \<open>chromosome_promoter_order\<close> and the keys of \<open>chromosome.promoters\<close> are attributes
  that the method never assigns. \<open>initiation_evolve k\<close> and \<open>np_random_choice k\<close> are the
  results of the \<open>k\<close>-th call of a random source during the method; \<open>initiation_evolve\<close>
  returns the list of \<open>(time, event)\<close> pairs that the method zips together.
\<close>

record ('c, 'd, 'r) collaborators =
  chromosome_promoter_order :: "string list"
  chromosome_promoters :: "string list"
  chromosome_promoter_rnaps :: "'c \<Rightarrow> (string \<rightharpoonup> ('d \<times> 'r) list)"
  chromosome_promoter_domains :: "'c \<Rightarrow> (string \<rightharpoonup> 'd list)"
  chromosome_promoter_copy_numbers :: "'c \<Rightarrow> int list"
  chromosome_terminator_distance :: "'c \<Rightarrow> rat"
  chromosome_bind_rnap :: "string \<Rightarrow> 'd \<Rightarrow> 'c \<Rightarrow> 'r \<times> 'c"
  rnap_is_bound :: "'r \<Rightarrow> bool"
  rnap_domain :: "'r \<Rightarrow> 'd"
  rnap_start_transcribing :: "'r \<Rightarrow> 'c \<Rightarrow> 'c"
  new_Elongation :: "rat \<Rightarrow> 'c \<Rightarrow> 'c"
  elongation_elongate :: "rat \<Rightarrow> rat \<Rightarrow> 'c \<Rightarrow> int \<times> 'c"
  elongation_elongation :: "'c \<Rightarrow> rat"
  initiation_evolve :: "nat \<Rightarrow> rat \<Rightarrow> int list \<Rightarrow> (rat \<times> nat) list"
  np_random_choice :: "nat \<Rightarrow> nat"

text \<open>
  The attributes of the process instance that the method reads; it assigns
  \<open>self.elongation\<close>, the accumulator that carries the fractional progress of the
  elongation to the next call.
\<close>

record transcription =
  promoter_count :: nat
  elongation_rate :: rat
  elongation :: rat

text \<open>
  The local variables that the loop assigns. \<open>sim_time\<close> is the local \<open>time\<close>, the
  simulated time within the step; \<open>random_calls\<close> counts the calls of a random source
  so far.
\<close>

record ('c, 'd, 'r) locals =
  chromosome :: 'c
  bound_rnap :: "int list"
  open_domains :: "string \<rightharpoonup> 'd list"
  bound_domains :: "string \<rightharpoonup> 'd list"
  promoter_rnaps :: "string \<rightharpoonup> ('d \<times> 'r) list"
  unbound_rnaps :: int
  sim_time :: rat
  random_calls :: nat

text \<open>
  The bookkeeping before the loop:
  \<^verbatim>\<open>
  promoter_rnaps = chromosome.promoter_rnaps()
  promoter_domains = chromosome.promoter_domains()
  bound_rnap = []
  open_domains = {}
  bound_domains = {}
  for promoter_key in chromosome.promoter_order:
      bound_domains[promoter_key] = set([
          rnap.domain
          for rnap in promoter_rnaps.get(promoter_key, {}).values()
          if rnap.is_bound()])
      bound_rnap.append(len(bound_domains[promoter_key]))
      open_domains[promoter_key] = promoter_domains[promoter_key] - bound_domains[promoter_key]
  \<close>
\<close>

definition initially_bound ::
  "('c, 'd, 'r) collaborators \<Rightarrow> (string \<rightharpoonup> ('d \<times> 'r) list) \<Rightarrow> string \<Rightarrow> 'd list" where
  "initially_bound env p_rnaps promoter_key =
     remdups (map (rnap_domain env) (filter (rnap_is_bound env)
       (case p_rnaps promoter_key of None \<Rightarrow> [] | Some d \<Rightarrow> map snd d)))"

fun init_domains ::
  "('c, 'd, 'r) collaborators \<Rightarrow> (string \<rightharpoonup> ('d \<times> 'r) list) \<Rightarrow> (string \<rightharpoonup> 'd list) \<Rightarrow>
   string list \<Rightarrow> int list \<times> (string \<rightharpoonup> 'd list) \<times> (string \<rightharpoonup> 'd list) \<Rightarrow>
   py_error + int list \<times> (string \<rightharpoonup> 'd list) \<times> (string \<rightharpoonup> 'd list)" where
  "init_domains env p_rnaps p_domains [] acc = Inr acc"
| "init_domains env p_rnaps p_domains (promoter_key # keys) (b_rnap, opn, bnd) =
     (let bound = initially_bound env p_rnaps promoter_key
      in case p_domains promoter_key of
           None \<Rightarrow> Inl KeyError
         | Some domains \<Rightarrow>
             init_domains env p_rnaps p_domains keys
               (b_rnap @ [int (length bound)],
                opn(promoter_key \<mapsto> filter (\<lambda>d. d \<notin> set bound) domains),
                bnd(promoter_key \<mapsto> bound)))"

text \<open>
  The two branches of the loop over the events of one interval.
  \<^verbatim>\<open>
  if event < self.promoter_count:
      promoter_key = chromosome.promoter_order[event]
      promoter = chromosome.promoters[promoter_key]
      domains = open_domains[promoter_key]
      domain = choose_element(domains)
      bound_rnap[event] += 1
      bound_domains[promoter_key].add(domain)
      open_domains[promoter_key].remove(domain)
      new_rnap = chromosome.bind_rnap(promoter_key, domain)
      promoter_rnaps[promoter_key][domain] = new_rnap
      rnap_bindings += 1
      unbound_rnaps -= 1
  else:
      promoter_index = event - self.promoter_count
      promoter_key = chromosome.promoter_order[promoter_index]
      domains = bound_domains[promoter_key]
      domain = choose_element(domains)
      open_domains[promoter_key].add(domain)
      bound_domains[promoter_key].remove(domain)
      bound_rnap[promoter_index] -= 1
      rnap = promoter_rnaps[promoter_key][domain]
      rnap.start_transcribing()
      del promoter_rnaps[promoter_key][domain]
  \<close>
  When \<open>choose_element\<close> returns \<open>None\<close>, the \<open>add\<close> receives \<open>None\<close> and the
  \<open>remove\<close> that follows raises \<open>KeyError\<close>, since \<open>None\<close> is not a member.
\<close>

definition bind_event ::
  "('c, 'd, 'r) collaborators \<Rightarrow> ('c, 'd, 'r) locals \<Rightarrow> nat \<Rightarrow> py_error + ('c, 'd, 'r) locals" where
  "bind_event env s event =
     (if \<not> event < length (chromosome_promoter_order env) then Inl IndexError
      else let promoter_key = chromosome_promoter_order env ! event in
      if promoter_key \<notin> set (chromosome_promoters env) then Inl KeyError
      else case open_domains s promoter_key of
        None \<Rightarrow> Inl KeyError
      | Some domains \<Rightarrow>
         (case choose_element domains (np_random_choice env (random_calls s)) of
            None \<Rightarrow>
              (if \<not> event < length (bound_rnap s) then Inl IndexError else Inl KeyError)
          | Some domain \<Rightarrow>
              if \<not> event < length (bound_rnap s) then Inl IndexError
              else case bound_domains s promoter_key of
                None \<Rightarrow> Inl KeyError
              | Some bound \<Rightarrow>
                  if domain \<notin> set domains then Inl KeyError
                  else let (new_rnap, chromosome') =
                             chromosome_bind_rnap env promoter_key domain (chromosome s)
                  in case promoter_rnaps s promoter_key of
                    None \<Rightarrow> Inl KeyError
                  | Some rnaps \<Rightarrow>
                      Inr (s\<lparr>chromosome := chromosome',
                             bound_rnap := (bound_rnap s)[event := bound_rnap s ! event + 1],
                             bound_domains := (bound_domains s)(promoter_key \<mapsto> set_add bound domain),
                             open_domains := (open_domains s)(promoter_key \<mapsto> remove1 domain domains),
                             promoter_rnaps :=
                               (promoter_rnaps s)(promoter_key \<mapsto> dict_set rnaps domain new_rnap),
                             unbound_rnaps := unbound_rnaps s - 1,
                             random_calls := Suc (random_calls s)\<rparr>)))"

definition advance_event ::
  "('c, 'd, 'r) collaborators \<Rightarrow> transcription \<Rightarrow> ('c, 'd, 'r) locals \<Rightarrow> nat \<Rightarrow>
   py_error + ('c, 'd, 'r) locals" where
  "advance_event env self s event =
     (let promoter_index = event - promoter_count self in
      if \<not> promoter_index < length (chromosome_promoter_order env) then Inl IndexError
      else let promoter_key = chromosome_promoter_order env ! promoter_index in
      case bound_domains s promoter_key of
        None \<Rightarrow> Inl KeyError
      | Some domains \<Rightarrow>
         (case choose_element domains (np_random_choice env (random_calls s)) of
            None \<Rightarrow> Inl KeyError
          | Some domain \<Rightarrow>
              (case open_domains s promoter_key of
                 None \<Rightarrow> Inl KeyError
               | Some opn \<Rightarrow>
                   if domain \<notin> set domains then Inl KeyError
                   else if \<not> promoter_index < length (bound_rnap s) then Inl IndexError
                   else case promoter_rnaps s promoter_key of
                     None \<Rightarrow> Inl KeyError
                   | Some rnaps \<Rightarrow>
                      (case map_of rnaps domain of
                         None \<Rightarrow> Inl KeyError
                       | Some rnap \<Rightarrow>
                           Inr (s\<lparr>chromosome := rnap_start_transcribing env rnap (chromosome s),
                                  open_domains := (open_domains s)(promoter_key \<mapsto> set_add opn domain),
                                  bound_domains :=
                                    (bound_domains s)(promoter_key \<mapsto> remove1 domain domains),
                                  bound_rnap :=
                                    (bound_rnap s)[promoter_index := bound_rnap s ! promoter_index - 1],
                                  promoter_rnaps :=
                                    (promoter_rnaps s)(promoter_key \<mapsto> dict_del rnaps domain),
                                  random_calls := Suc (random_calls s)\<rparr>)))))"

text \<open>
  One round of the loop over the events: elongation up to the time of the event, then
  the event.
\<close>

definition handle_event ::
  "('c, 'd, 'r) collaborators \<Rightarrow> transcription \<Rightarrow> ('c, 'd, 'r) locals \<Rightarrow> rat \<times> nat \<Rightarrow>
   py_error + ('c, 'd, 'r) locals" where
  "handle_event env self s ne =
     (let now = fst ne; event = snd ne;
          (terminations, chromosome') =
             elongation_elongate env (double_add (sim_time s) now) (elongation_rate self)
               (chromosome s);
          s' = s\<lparr>chromosome := chromosome', unbound_rnaps := unbound_rnaps s + terminations\<rparr>
      in if event < promoter_count self then bind_event env s' event
         else advance_event env self s' event)"

fun handle_events ::
  "('c, 'd, 'r) collaborators \<Rightarrow> transcription \<Rightarrow> ('c, 'd, 'r) locals \<Rightarrow> (rat \<times> nat) list \<Rightarrow>
   py_error + ('c, 'd, 'r) locals" where
  "handle_events env self s [] = Inr s"
| "handle_events env self s (ne # events) =
     (case handle_event env self s ne of
        Inl e \<Rightarrow> Inl e
      | Inr s' \<Rightarrow> handle_events env self s' events)"

text \<open>
  One iteration of the \<open>while time < timestep\<close> loop:
  \<^verbatim>\<open>
  substrate = np.concatenate([copy_numbers - bound_rnap, bound_rnap, [unbound_rnaps]])
  distance = chromosome.terminator_distance()
  interval = distance / self.elongation_rate
  result = self.initiation.evolve(interval, substrate)
  for now, event in zip(result['time'], result['events']):
      ...
  terminations, monomer_limits, chromosome.rnaps = elongation.elongate(
      time + interval, self.elongation_rate, monomer_limits, chromosome.rnaps)
  unbound_rnaps += terminations
  time += interval
  \<close>
  The terminator distance and the elongation rate are numbers; the division and the
  two additions to the clock are operations on floats. The loop need not stop, so it is
  a partial function.
\<close>

definition substrate :: "int list \<Rightarrow> ('c, 'd, 'r) locals \<Rightarrow> int list" where
  "substrate copy_numbers s =
     map2 (-) copy_numbers (bound_rnap s) @ bound_rnap s @ [unbound_rnaps s]"

definition iteration ::
  "('c, 'd, 'r) collaborators \<Rightarrow> transcription \<Rightarrow> int list \<Rightarrow> ('c, 'd, 'r) locals \<Rightarrow>
   py_error + ('c, 'd, 'r) locals" where
  "iteration env self copy_numbers s =
     (let distance = chromosome_terminator_distance env (chromosome s) in
      if elongation_rate self = 0 then Inl ZeroDivisionError
      else let interval = double_div distance (elongation_rate self);
               result = initiation_evolve env (random_calls s) interval (substrate copy_numbers s)
      in case handle_events env self (s\<lparr>random_calls := Suc (random_calls s)\<rparr>) result of
           Inl e \<Rightarrow> Inl e
         | Inr s' \<Rightarrow>
             (let (terminations, chromosome') =
                    elongation_elongate env (double_add (sim_time s') interval)
                      (elongation_rate self) (chromosome s')
              in Inr (s'\<lparr>chromosome := chromosome',
                         unbound_rnaps := unbound_rnaps s' + terminations,
                         sim_time := double_add (sim_time s') interval\<rparr>)))"

partial_function (option) transcription_loop ::
  "('c, 'd, 'r) collaborators \<Rightarrow> transcription \<Rightarrow> int list \<Rightarrow> rat \<Rightarrow> ('c, 'd, 'r) locals \<Rightarrow>
   (py_error + ('c, 'd, 'r) locals) option" where
  "transcription_loop env self copy_numbers timestep s =
     (if sim_time s < timestep
      then (case iteration env self copy_numbers s of
              Inl e \<Rightarrow> Some (Inl e)
            | Inr s' \<Rightarrow> transcription_loop env self copy_numbers timestep s')
      else Some (Inr s))"

declare transcription_loop.simps [code]

text \<open>The result of running the body of the loop \<open>n\<close> times.\<close>

fun iterations ::
  "('c, 'd, 'r) collaborators \<Rightarrow> transcription \<Rightarrow> int list \<Rightarrow> nat \<Rightarrow> ('c, 'd, 'r) locals \<Rightarrow>
   py_error + ('c, 'd, 'r) locals" where
  "iterations env self copy_numbers 0 s = Inr s"
| "iterations env self copy_numbers (Suc n) s =
     (case iteration env self copy_numbers s of
        Inl e \<Rightarrow> Inl e
      | Inr s' \<Rightarrow> iterations env self copy_numbers n s')"

text \<open>
  The method as a whole. After the loop it assigns the accumulator
  \<^verbatim>\<open>self.elongation = elongation.elongation - int(elongation.elongation)\<close>
  and returns the update (the chromosome, the change of the number of unbound RNAP, and
  the monomers and transcripts that the \<open>Elongation\<close> object holds). \<open>None\<close> is the
  call that never returns.
\<close>

record 'c transcription_update =
  update_chromosome :: 'c
  update_unbound_rnaps :: int

definition initial_locals ::
  "('c, 'd, 'r) collaborators \<Rightarrow> transcription \<Rightarrow> 'c \<Rightarrow> int \<Rightarrow> py_error + ('c, 'd, 'r) locals" where
  "initial_locals env self chromosome0 original_unbound_rnaps =
     (let p_rnaps = chromosome_promoter_rnaps env chromosome0;
          p_domains = chromosome_promoter_domains env chromosome0
      in case init_domains env p_rnaps p_domains (chromosome_promoter_order env)
                ([], Map.empty, Map.empty) of
           Inl e \<Rightarrow> Inl e
         | Inr (b_rnap, opn, bnd) \<Rightarrow>
             Inr \<lparr>chromosome = new_Elongation env (elongation self) chromosome0,
                  bound_rnap = b_rnap, open_domains = opn, bound_domains = bnd,
                  promoter_rnaps = p_rnaps, unbound_rnaps = original_unbound_rnaps,
                  sim_time = 0, random_calls = 0\<rparr>)"

definition carry :: "rat \<Rightarrow> rat" where
  "carry x = x - of_int (py_int x)"

definition finish_update ::
  "('c, 'd, 'r) collaborators \<Rightarrow> transcription \<Rightarrow> int \<Rightarrow> ('c, 'd, 'r) locals \<Rightarrow>
   'c transcription_update \<times> transcription" where
  "finish_update env self original_unbound_rnaps s =
     (\<lparr>update_chromosome = chromosome s,
       update_unbound_rnaps = unbound_rnaps s - original_unbound_rnaps\<rparr>,
      self\<lparr>elongation := carry (elongation_elongation env (chromosome s))\<rparr>)"

definition Transcription_next_update ::
  "('c, 'd, 'r) collaborators \<Rightarrow> transcription \<Rightarrow> rat \<Rightarrow> 'c \<Rightarrow> int \<Rightarrow>
   (py_error + 'c transcription_update \<times> transcription) option" where
  "Transcription_next_update env self timestep chromosome0 original_unbound_rnaps =
     (case initial_locals env self chromosome0 original_unbound_rnaps of
        Inl e \<Rightarrow> Some (Inl e)
      | Inr s0 \<Rightarrow>
         (case transcription_loop env self
                 (chromosome_promoter_copy_numbers env chromosome0) timestep s0 of
            None \<Rightarrow> None
          | Some (Inl e) \<Rightarrow> Some (Inl e)
          | Some (Inr s) \<Rightarrow> Some (Inr (finish_update env self original_unbound_rnaps s))))"

text \<open>
  The bookkeeping of promoter \<open>i\<close> is consistent when both of its sets of domains and
  its dict of RNAP exist, the open and the bound domains have no domain in common, the
  bound count is the number of bound domains, the number of open domains is the copy
  number minus the bound count (the entry of the substrate vector), and every bound
  domain has its RNAP.
\<close>

definition promoter_consistent ::
  "('c, 'd, 'r) collaborators \<Rightarrow> int list \<Rightarrow> ('c, 'd, 'r) locals \<Rightarrow> nat \<Rightarrow> bool" where
  "promoter_consistent env copy_numbers s i =
     (let promoter_key = chromosome_promoter_order env ! i in
      promoter_key \<in> set (chromosome_promoters env) \<and>
      (case open_domains s promoter_key of
         None \<Rightarrow> False
       | Some opn \<Rightarrow>
          (case bound_domains s promoter_key of
             None \<Rightarrow> False
           | Some bnd \<Rightarrow>
              (case promoter_rnaps s promoter_key of
                 None \<Rightarrow> False
               | Some rnaps \<Rightarrow>
                   distinct opn \<and> distinct bnd \<and> set opn \<inter> set bnd = {}
                   \<and> int (length bnd) = bound_rnap s ! i
                   \<and> int (length opn) = copy_numbers ! i - bound_rnap s ! i
                   \<and> set bnd \<subseteq> set (map fst rnaps)))))"

definition domains_consistent ::
  "('c, 'd, 'r) collaborators \<Rightarrow> int list \<Rightarrow> ('c, 'd, 'r) locals \<Rightarrow> bool" where
  "domains_consistent env copy_numbers s =
     (distinct (chromosome_promoter_order env)
      \<and> length (bound_rnap s) = length (chromosome_promoter_order env)
      \<and> length copy_numbers = length (chromosome_promoter_order env)
      \<and> list_all (promoter_consistent env copy_numbers s)
           [0..<length (chromosome_promoter_order env)])"

text \<open>
  A list of events is a firing sequence from the bound counts \<open>b\<close> when every binding
  event finds its promoter with a positive number of free copies and every advancement
  event finds it with a positive bound count, each event moving one copy: what a
  stochastic simulation of the two reactions per promoter reports.
\<close>

fun firing_sequence :: "nat \<Rightarrow> int list \<Rightarrow> int list \<Rightarrow> nat list \<Rightarrow> bool" where
  "firing_sequence pc copy_numbers b [] = True"
| "firing_sequence pc copy_numbers b (event # events) =
     (if event < pc
      then event < length b \<and> 0 < copy_numbers ! event - b ! event
           \<and> firing_sequence pc copy_numbers (b[event := b ! event + 1]) events
      else event - pc < length b \<and> 0 < b ! (event - pc)
           \<and> firing_sequence pc copy_numbers (b[event - pc := b ! (event - pc) - 1]) events)"

text \<open>
  What the method relies on in the chromosome it is given: the promoters of
  \<open>promoter_order\<close> are distinct and declared, every promoter has its set of domains
  and its dict of RNAP (keyed by the domain of the RNAP), the copy number of a promoter
  is the number of its domains, and the bound RNAP sit on domains of their promoter.
\<close>

definition chromosome_well_formed :: "('c, 'd, 'r) collaborators \<Rightarrow> 'c \<Rightarrow> bool" where
  "chromosome_well_formed env c0 =
     (distinct (chromosome_promoter_order env)
      \<and> set (chromosome_promoter_order env) \<subseteq> set (chromosome_promoters env)
      \<and> length (chromosome_promoter_copy_numbers env c0) = length (chromosome_promoter_order env)
      \<and> (\<forall>i < length (chromosome_promoter_order env). \<exists>domains.
            chromosome_promoter_domains env c0 (chromosome_promoter_order env ! i) = Some domains
          \<and> distinct domains
          \<and> chromosome_promoter_copy_numbers env c0 ! i = int (length domains)
          \<and> set (initially_bound env (chromosome_promoter_rnaps env c0)
                   (chromosome_promoter_order env ! i)) \<subseteq> set domains)
      \<and> (\<forall>k \<in> set (chromosome_promoter_order env). \<exists>rs.
            chromosome_promoter_rnaps env c0 k = Some rs
          \<and> (\<forall>(d, r) \<in> set rs. rnap_domain env r = d)))"

text \<open>
  What the method relies on in the initiation system: from whatever substrate vector
  it is given (free copies, bound counts, unbound RNAP), the events it reports are a
  firing sequence.
\<close>

definition reports_firing_sequences ::
  "('c, 'd, 'r) collaborators \<Rightarrow> nat \<Rightarrow> int list \<Rightarrow> bool" where
  "reports_firing_sequences env pc copy_numbers =
     (\<forall>k interval b u. length b = length copy_numbers \<longrightarrow>
        firing_sequence pc copy_numbers b
          (map snd (initiation_evolve env k interval (map2 (-) copy_numbers b @ b @ [u]))))"

text \<open>
  A chromosome with one promoter \<open>pA\<close> on one domain and no RNAP, for running the
  method: the chromosome state is the progress of the elongation, every call of
  \<open>elongate\<close> adds three quarters of a monomer, the terminator is one monomer away,
  and the first interval reports one binding event if the promoter is free.
\<close>

definition toy_collaborators :: "(rat, nat, nat) collaborators" where
  "toy_collaborators =
     \<lparr>chromosome_promoter_order = [''pA''],
      chromosome_promoters = [''pA''],
      chromosome_promoter_rnaps = (\<lambda>c. [''pA'' \<mapsto> []]),
      chromosome_promoter_domains = (\<lambda>c. [''pA'' \<mapsto> [0]]),
      chromosome_promoter_copy_numbers = (\<lambda>c. [1]),
      chromosome_terminator_distance = (\<lambda>c. 1),
      chromosome_bind_rnap = (\<lambda>promoter_key domain c. (domain, c)),
      rnap_is_bound = (\<lambda>r. True),
      rnap_domain = (\<lambda>r. r),
      rnap_start_transcribing = (\<lambda>r c. c),
      new_Elongation = (\<lambda>e c. e),
      elongation_elongate = (\<lambda>now rate c. (0, c + 3 / 4)),
      elongation_elongation = (\<lambda>c. c),
      initiation_evolve =
        (\<lambda>k interval substrate. if k = 0 \<and> 0 < substrate ! 0 then [(0, 0)] else []),
      np_random_choice = (\<lambda>k. 0)\<rparr>"

definition toy_transcription :: transcription where
  "toy_transcription = \<lparr>promoter_count = 1, elongation_rate = 1, elongation = 0\<rparr>"

definition toy_locals :: "(rat, nat, nat) locals" where
  "toy_locals =
     \<lparr>chromosome = 0, bound_rnap = [0], open_domains = [''pA'' \<mapsto> [0]],
      bound_domains = [''pA'' \<mapsto> []], promoter_rnaps = [''pA'' \<mapsto> []],
      unbound_rnaps = 10, sim_time = 0, random_calls = 1\<rparr>"

text \<open>
  A chromosome without promoters whose terminator is \<open>2^53\<close> monomers away at first
  and one monomer away after the first elongation; the chromosome state counts the
  calls of \<open>elongate\<close>.
\<close>

definition stalling_collaborators :: "(nat, nat, nat) collaborators" where
  "stalling_collaborators =
     \<lparr>chromosome_promoter_order = [],
      chromosome_promoters = [],
      chromosome_promoter_rnaps = (\<lambda>c. Map.empty),
      chromosome_promoter_domains = (\<lambda>c. Map.empty),
      chromosome_promoter_copy_numbers = (\<lambda>c. []),
      chromosome_terminator_distance = (\<lambda>c. if c = 0 then 9007199254740992 else 1),
      chromosome_bind_rnap = (\<lambda>promoter_key domain c. (domain, c)),
      rnap_is_bound = (\<lambda>r. True),
      rnap_domain = (\<lambda>r. r),
      rnap_start_transcribing = (\<lambda>r c. c),
      new_Elongation = (\<lambda>e c. c),
      elongation_elongate = (\<lambda>now rate c. (0, Suc c)),
      elongation_elongation = (\<lambda>c. 0),
      initiation_evolve = (\<lambda>k interval substrate. []),
      np_random_choice = (\<lambda>k. 0)\<rparr>"

definition stalling_transcription :: transcription where
  "stalling_transcription = \<lparr>promoter_count = 0, elongation_rate = 1, elongation = 0\<rparr>"

section \<open>Properties\<close>

subsection \<open>Rounding to a double\<close>

lemma log2_up_bounds: "1 \<le> x \<Longrightarrow> 2 ^ log2_up x \<le> x \<and> x < 2 ^ Suc (log2_up x)"
proof (induction x rule: log2_up.induct)
  case (1 x)
  show ?case
  proof (cases "x < 2")
    case True
    with 1(2) show ?thesis by (subst (1 2) log2_up.simps) simp
  next
    case False
    then have "1 \<le> x / 2" by simp
    from 1(1)[OF False this] False show ?thesis
      by (subst (1 2) log2_up.simps) (simp add: field_simps)
  qed
qed

lemma floor_log2_bounds:
  assumes "0 < x"
  shows "2 powi floor_log2 x \<le> x \<and> x < 2 powi (floor_log2 x + 1)"
proof (cases "1 \<le> x")
  case True
  from log2_up_bounds[OF True] True show ?thesis
    by (simp add: floor_log2_def power_int_add)
next
  case False
  define n where "n = log2_up (1 / x)"
  from False assms have "1 \<le> 1 / x" by simp
  from log2_up_bounds[OF this] have b: "2 ^ n \<le> 1 / x" "1 / x < 2 ^ Suc n"
    by (simp_all add: n_def)
  have p: "(0::rat) < 2 ^ n" by simp
  have e0: "(2::rat) powi (- int n) = 1 / 2 ^ n"
    by (simp add: power_int_minus field_simps)
  have "(2::rat) powi (1 + (- int n)) = 2 powi 1 * 2 powi (- int n)"
    by (rule power_int_add) simp
  then have e1: "(2::rat) powi (1 - int n) = 2 / 2 ^ n"
    by (simp add: e0)
  have e2: "(2::rat) powi (- int n - 1) = 1 / 2 ^ Suc n"
    by (simp add: power_int_diff power_int_minus field_simps)
  show ?thesis
  proof (cases "2 ^ n = 1 / x")
    case True
    then have x: "x = 1 / 2 ^ n" using assms by (simp add: field_simps)
    have "floor_log2 x = - int n"
      using False True by (simp add: floor_log2_def n_def[symmetric] Let_def)
    moreover have "(1::rat) / 2 ^ n < 2 / 2 ^ n"
      using p by (simp add: divide_strict_right_mono)
    ultimately show ?thesis
      by (simp add: e0 e1 x)
  next
    case neq: False
    with b(1) have lt: "2 ^ n < 1 / x" by simp
    have fl: "floor_log2 x = - int n - 1"
      using False neq by (simp add: floor_log2_def n_def[symmetric] Let_def)
    have "x < 1 / 2 ^ n" using lt assms p by (simp add: field_simps)
    moreover have "1 / 2 ^ Suc n < x" using b(2) assms by (simp add: field_simps)
    ultimately show ?thesis
      unfolding fl by (simp add: e0 e2)
  qed
qed

lemma floor_log2_eqI:
  assumes "2 powi k \<le> x" "x < 2 powi (k + 1)"
  shows "floor_log2 x = k"
proof -
  have "(0::rat) < 2 powi k" by simp
  from this assms(1) have pos: "0 < x" by (rule less_le_trans)
  note b = floor_log2_bounds[OF pos]
  have "floor_log2 x < k + 1"
  proof (rule ccontr)
    assume "\<not> floor_log2 x < k + 1"
    then have "(2::rat) powi (k + 1) \<le> 2 powi floor_log2 x"
      by (intro power_int_increasing) simp_all
    with b assms show False by simp
  qed
  moreover have "k < floor_log2 x + 1"
  proof (rule ccontr)
    assume "\<not> k < floor_log2 x + 1"
    then have "(2::rat) powi (floor_log2 x + 1) \<le> 2 powi k"
      by (intro power_int_increasing) simp_all
    with b assms show False by simp
  qed
  ultimately show ?thesis by simp
qed

lemma round_half_even_of_int [simp]: "round_half_even (of_int n) = n"
  by (simp add: round_half_even_def)

lemma round_half_even_lower: "m - 1 / 2 \<le> of_int (round_half_even m)"
  unfolding round_half_even_def Let_def
  by (auto simp: not_less; linarith)

lemma round_half_even_eqI:
  assumes "of_int n - 1 / 2 < m" "m < of_int n + 1 / 2"
  shows "round_half_even m = n"
proof -
  have "\<lfloor>m\<rfloor> = n \<or> \<lfloor>m\<rfloor> = n - 1" using assms by linarith
  then show ?thesis
  proof
    assume f: "\<lfloor>m\<rfloor> = n"
    then show ?thesis using assms by (simp add: round_half_even_def Let_def)
  next
    assume f: "\<lfloor>m\<rfloor> = n - 1"
    then show ?thesis using assms by (simp add: round_half_even_def Let_def)
  qed
qed

lemma round_half_even_tie:
  assumes "m = of_int n + 1 / 2"
  shows "round_half_even m = (if even n then n else n + 1)"
proof -
  have "\<lfloor>m\<rfloor> = n" using assms by linarith
  then show ?thesis using assms by (simp add: round_half_even_def Let_def)
qed

lemma round_double_eqI:
  assumes "2 powi k \<le> \<bar>x\<bar>" "\<bar>x\<bar> < 2 powi (k + 1)" "e = max (k - 52) (- 1074)"
  shows "round_double x = of_int (round_half_even (x / 2 powi e)) * 2 powi e"
proof -
  have "(0::rat) < 2 powi k" by simp
  from this assms(1) have "0 < \<bar>x\<bar>" by (rule less_le_trans)
  then have "x \<noteq> 0" by simp
  then show ?thesis
    by (simp add: round_double_def double_exponent_def floor_log2_eqI[OF assms(1,2)] assms(3))
qed

lemma round_double_representable:
  assumes "x / 2 powi double_exponent x = of_int n"
  shows "round_double x = x"
proof (cases "x = 0")
  case True
  then show ?thesis by (simp add: round_double_def)
next
  case False
  have "x = of_int n * 2 powi double_exponent x"
    using assms by (simp add: field_simps)
  then show ?thesis using False assms by (simp add: round_double_def)
qed

lemma round_double_of_int:
  assumes "\<bar>i\<bar> \<le> 2 ^ 53"
  shows "round_double (of_int i) = of_int i"
proof (cases "i = 0")
  case True
  then show ?thesis by (simp add: round_double_def)
next
  case False
  let ?x = "of_int i :: rat"
  let ?k = "floor_log2 \<bar>?x\<bar>"
  have pos: "0 < \<bar>?x\<bar>" using False by simp
  note b = floor_log2_bounds[OF pos]
  have "1 \<le> \<bar>i\<bar>" using False by linarith
  then have "(of_int 1 :: rat) \<le> of_int \<bar>i\<bar>" by (simp only: of_int_le_iff)
  then have one: "1 \<le> \<bar>?x\<bar>" by simp
  have k0: "0 \<le> ?k"
  proof (rule ccontr)
    assume "\<not> 0 \<le> ?k"
    then have "(2::rat) powi (?k + 1) \<le> 2 powi 0" by (intro power_int_increasing) simp_all
    with b one show False by simp
  qed
  have "\<bar>?x\<bar> \<le> 2 ^ 53"
    using assms by (metis of_int_abs of_int_le_iff of_int_numeral of_int_power)
  then have k53: "?k \<le> 53"
  proof -
    assume le: "\<bar>?x\<bar> \<le> 2 ^ 53"
    show ?thesis
    proof (rule ccontr)
      assume "\<not> ?k \<le> 53"
      then have "(2::rat) powi 54 \<le> 2 powi ?k" by (intro power_int_increasing) simp_all
      with b le show False by simp
    qed
  qed
  have e: "double_exponent ?x = ?k - 52" using k0 by (simp add: double_exponent_def)
  show ?thesis
  proof (cases "?k = 53")
    case True
    with b \<open>\<bar>?x\<bar> \<le> 2 ^ 53\<close> have "\<bar>?x\<bar> = 2 ^ 53" by simp
    then have "\<bar>i\<bar> = 2 ^ 53"
      by (metis of_int_abs of_int_eq_iff of_int_numeral of_int_power)
    then have "i = 2 ^ 53 \<or> i = - (2 ^ 53)" by linarith
    then have "?x / 2 powi double_exponent ?x = of_int (i div 2)"
      unfolding e True by auto
    then show ?thesis by (rule round_double_representable)
  next
    case False
    with k53 have "?k \<le> 52" by simp
    define j where "j = nat (52 - ?k)"
    with \<open>?k \<le> 52\<close> have kj: "?k - 52 = - int j" by simp
    have "(2::rat) powi (- int j) = 1 / 2 ^ j"
      by (simp add: power_int_minus field_simps)
    then have "?x / 2 powi double_exponent ?x = of_int (i * 2 ^ j)"
      unfolding e kj by simp
    then show ?thesis by (rule round_double_representable)
  qed
qed

lemma round_double_lower:
  assumes "2 powi (- 1022) \<le> x"
  shows "x * (1 - 2 powi (- 53)) \<le> round_double x"
proof -
  have "(0::rat) < 2 powi (- 1022)" by simp
  with assms have pos: "0 < x" by simp
  let ?k = "floor_log2 x"
  note b = floor_log2_bounds[OF pos]
  have "- 1022 \<le> ?k"
  proof (rule ccontr)
    assume "\<not> - 1022 \<le> ?k"
    then have "(2::rat) powi (?k + 1) \<le> 2 powi (- 1022)" by (intro power_int_increasing) simp_all
    with b assms show False by simp
  qed
  then have e: "double_exponent x = ?k - 52" using pos by (simp add: double_exponent_def)
  let ?e = "?k - 52"
  have r: "round_double x = of_int (round_half_even (x / 2 powi ?e)) * 2 powi ?e"
    using pos by (simp add: round_double_def e)
  define p :: rat where "p = 2 powi ?e"
  define n :: rat where "n = of_int (round_half_even (x / p))"
  have pp: "0 < p" by (simp add: p_def)
  have "x / p - 1 / 2 \<le> n" unfolding n_def by (rule round_half_even_lower)
  then have "x / p \<le> n + 1 / 2" by simp
  then have "x \<le> (n + 1 / 2) * p" using pp by (simp add: pos_divide_le_eq)
  then have "x - p / 2 \<le> n * p" by (simp add: algebra_simps)
  then have 1: "x - p / 2 \<le> round_double x" by (simp add: r n_def p_def)
  have "p / 2 = 2 powi ?k * 2 powi (- 53)"
    by (simp add: p_def power_int_diff power_int_minus field_simps)
  moreover have "2 powi ?k * 2 powi (- 53) \<le> x * 2 powi (- 53)"
    using b by (intro mult_right_mono) simp_all
  ultimately have "p / 2 \<le> x * 2 powi (- 53)" by simp
  with 1 show ?thesis by (simp add: algebra_simps)
qed

lemma round_double_0 [simp]: "round_double 0 = 0"
  by (simp add: round_double_def)

lemma round_double_1 [simp]: "round_double 1 = 1"
  using round_double_of_int[of 1] by simp

lemma double_add_of_int:
  "\<bar>i + j\<bar> \<le> 2 ^ 53 \<Longrightarrow> double_add (of_int i) (of_int j) = of_int (i + j)"
  unfolding double_add_def using round_double_of_int[of "i + j"] by simp

lemma double_tenth_plus_one:
  "double_add (3602879701896397 / 36028797018963968) 1 = 2476979795053773 / 2251799813685248"
proof -
  let ?x = "39631676720860365 / 36028797018963968 :: rat"
  have r: "round_half_even (?x / 2 powi (- 52)) = 4953959590107546"
    by (rule round_half_even_eqI) (simp_all add: power_int_minus)
  have "round_double ?x = of_int (round_half_even (?x / 2 powi (- 52))) * 2 powi (- 52)"
    by (rule round_double_eqI[where k = 0]) simp_all
  then have "round_double ?x = 2476979795053773 / 2251799813685248"
    unfolding r by (simp add: power_int_minus)
  then show ?thesis by (simp add: double_add_def)
qed

lemma double_2_53_plus_1: "double_add 9007199254740992 1 = 9007199254740992"
proof -
  let ?x = "9007199254740993 :: rat"
  have r: "round_half_even (?x / 2 powi 1) = 4503599627370496"
    using round_half_even_tie[of "?x / 2 powi 1" 4503599627370496] by simp
  have "round_double ?x = of_int (round_half_even (?x / 2 powi 1)) * 2 powi 1"
    by (rule round_double_eqI[where k = 53]) simp_all
  then have "round_double ?x = 9007199254740992"
    unfolding r by simp
  then show ?thesis by (simp add: double_add_def)
qed



lemma is_double_I:
  assumes "2 powi k \<le> \<bar>x\<bar>" "\<bar>x\<bar> < 2 powi (k + 1)" "k \<le> 1023"
    and "x / 2 powi (max (k - 52) (- 1074)) = of_int n"
  shows "is_double x"
proof -
  let ?e = "max (k - 52) (- 1074)"
  have "round_double x = of_int (round_half_even (x / 2 powi ?e)) * 2 powi ?e"
    using assms(1,2) by (rule round_double_eqI) simp
  also have "\<dots> = of_int n * 2 powi ?e"
    by (simp only: assms(4) round_half_even_of_int)
  also have "\<dots> = x"
    using assms(4) by (simp add: field_simps)
  finally have r: "round_double x = x" .
  have "(2::rat) powi (k + 1) \<le> 2 powi 1024"
    using assms(3) by (intro power_int_increasing) simp_all
  with assms(2) have "\<bar>x\<bar> < 2 powi 1024" by simp
  with r show ?thesis by (simp add: is_double_def)
qed

lemma is_double_of_int:
  assumes "\<bar>i\<bar> \<le> 2 ^ 53"
  shows "is_double (of_int i)"
proof -
  have "(of_int \<bar>i\<bar> :: rat) \<le> of_int (2 ^ 53)" using assms by (simp only: of_int_le_iff)
  then have "\<bar>of_int i :: rat\<bar> \<le> 2 ^ 53" by simp
  moreover have "(2 :: rat) ^ 53 < 2 powi 1024" by simp
  ultimately have "\<bar>of_int i :: rat\<bar> < 2 powi 1024" by (rule le_less_trans)
  with round_double_of_int[OF assms] show ?thesis by (simp add: is_double_def)
qed

lemma is_double_tenth: "is_double (3602879701896397 / 36028797018963968)"
  by (rule is_double_I[where k = "- 4" and n = 7205759403792794])
     (simp_all add: power_int_minus)

lemma is_double_eleven_tenths: "is_double (2476979795053773 / 2251799813685248)"
  by (rule is_double_I[where k = 0 and n = 4953959590107546])
     (simp_all add: power_int_minus)

lemma dict_set_keys: "fst ` set (dict_set d k v) = insert k (fst ` set d)"
proof (induction d)
  case Nil
  show ?case by simp
next
  case (Cons p d)
  obtain k' v' where p: "p = (k', v')" by (cases p)
  show ?case
  proof (cases "k' = k")
    case True
    then show ?thesis by (simp add: p)
  next
    case False
    then show ?thesis using Cons.IH by (simp add: p insert_commute)
  qed
qed

lemma dict_set_values: "snd ` set (dict_set d k v) \<subseteq> insert v (snd ` set d)"
proof (induction d)
  case Nil
  show ?case by simp
next
  case (Cons p d)
  obtain k' v' where p: "p = (k', v')" by (cases p)
  show ?case
  proof (cases "k' = k")
    case True
    then show ?thesis by (auto simp: p)
  next
    case False
    then show ?thesis using Cons.IH by (auto simp: p)
  qed
qed

lemma dict_set_distinct:
  "distinct (map fst d) \<Longrightarrow> distinct (map fst (dict_set d k v))"
proof (induction d)
  case Nil
  show ?case by simp
next
  case (Cons p d)
  obtain k' v' where p: "p = (k', v')" by (cases p)
  show ?case
  proof (cases "k' = k")
    case True
    with Cons.prems show ?thesis by (simp add: p)
  next
    case False
    have "k' \<notin> fst ` set (dict_set d k v)"
      using Cons.prems False by (simp add: dict_set_keys p)
    with Cons False show ?thesis by (simp add: p)
  qed
qed

lemma fold_dict_set_distinct:
  "distinct (map fst acc) \<Longrightarrow>
   distinct (map fst (fold (\<lambda>c schema. dict_set schema c v) ks acc))"
  by (induction ks arbitrary: acc) (simp_all add: dict_set_distinct)

subsection \<open>The run loop\<close>

lemma steps_needed_0: "0 < d \<Longrightarrow> \<not> t < r \<Longrightarrow> steps_needed t d r = 0"
  unfolding steps_needed_def by (simp add: divide_le_0_iff)

lemma steps_needed_Suc:
  assumes "0 < d" "t < r"
  shows "steps_needed t d r = Suc (steps_needed (t + d) d r)"
proof -
  have e: "(r - (t + d)) / d = (r - t) / d - 1"
    using assms by (simp add: field_simps)
  have "0 < (r - t) / d" using assms by simp
  then have "0 < \<lceil>(r - t) / d\<rceil>" by linarith
  then show ?thesis
    unfolding steps_needed_def e by (simp add: ceiling_diff_one nat_diff_distrib)
qed

lemma invocation_times_Suc:
  "invocation_times t d (Suc n) = (t + d) # invocation_times (t + d) d n"
proof -
  have "[1..<Suc (Suc n)] = 1 # map Suc [1..<Suc n]"
    by (simp add: upt_conv_Cons map_Suc_upt del: upt_Suc)
  then show ?thesis
    unfolding invocation_times_def
    by (simp add: o_def algebra_simps del: upt_Suc)
qed

lemma run_incremental_steps:
  assumes "0 < d"
  shows "steps_needed t d r = n \<Longrightarrow>
    \<forall>k < n. double_add (t + of_nat k * d) d = t + of_nat (Suc k) * d \<Longrightarrow>
    run_incremental evolve d r t e =
      Some (t + of_nat n * d, fold evolve (invocation_times t d n) e)"
proof (induction n arbitrary: t e)
  case 0
  have "\<not> t < r"
  proof
    assume "t < r"
    from steps_needed_Suc[OF assms this] 0 show False by simp
  qed
  then show ?case
    by (subst run_incremental.simps) (simp add: invocation_times_def)
next
  case (Suc n)
  have lt: "t < r"
  proof (rule ccontr)
    assume "\<not> t < r"
    from steps_needed_0[OF assms this] Suc.prems show False by simp
  qed
  from steps_needed_Suc[OF assms lt] Suc.prems
  have n: "steps_needed (t + d) d r = n" by simp
  from Suc.prems(2)[rule_format, of 0] have first: "double_add t d = t + d" by simp
  have "double_add (t + d + of_nat k * d) d = t + d + of_nat (Suc k) * d" if "k < n" for k
    using Suc.prems(2)[rule_format, of "Suc k"] that by (simp add: algebra_simps)
  then have rest: "\<forall>k < n. double_add (t + d + of_nat k * d) d = t + d + of_nat (Suc k) * d"
    by blast
  from Suc.IH[OF n rest, of "evolve (t + d) e"] lt show ?case
    by (subst run_incremental.simps)
       (simp add: invocation_times_Suc Let_def first algebra_simps)
qed

lemma final_time_ge:
  assumes "0 < d"
  shows "r \<le> t + of_nat (steps_needed t d r) * d"
proof -
  have "\<lceil>(r - t) / d\<rceil> \<le> int (nat \<lceil>(r - t) / d\<rceil>)" by simp
  then have "(of_int \<lceil>(r - t) / d\<rceil> :: rat) \<le> of_int (int (nat \<lceil>(r - t) / d\<rceil>))"
    by (simp only: of_int_le_iff)
  moreover have "(r - t) / d \<le> of_int \<lceil>(r - t) / d\<rceil>" by (rule le_of_int_ceiling)
  ultimately have "(r - t) / d \<le> of_int (int (nat \<lceil>(r - t) / d\<rceil>))"
    by (rule order_trans[rotated])
  then have "(r - t) / d \<le> of_nat (steps_needed t d r)"
    by (simp only: steps_needed_def of_int_of_nat_eq)
  then have "r - t \<le> of_nat (steps_needed t d r) * d"
    using assms by (simp add: pos_divide_le_eq)
  then show ?thesis by simp
qed

lemma doubles_add_exactly:
  assumes "\<forall>k \<le> n. is_double (t + of_nat k * d)"
  shows "\<forall>k < n. double_add (t + of_nat k * d) d = t + of_nat (Suc k) * d"
proof (intro allI impI)
  fix k assume "k < n"
  then have "Suc k \<le> n" by simp
  with assms have "is_double (t + of_nat (Suc k) * d)" by blast
  then have "round_double (t + of_nat (Suc k) * d) = t + of_nat (Suc k) * d"
    by (simp add: is_double_def)
  moreover have "t + of_nat k * d + d = t + of_nat (Suc k) * d" by (simp add: algebra_simps)
  ultimately show "double_add (t + of_nat k * d) d = t + of_nat (Suc k) * d"
    by (simp only: double_add_def)
qed

text \<open>Integer clocks of magnitude up to \<open>2^53\<close> take only values that are doubles.\<close>

lemma integer_clock_doubles:
  assumes "0 \<le> b" "- (2 ^ 53) \<le> a" "a + int n * b \<le> 2 ^ 53"
  shows "\<forall>k \<le> n. is_double (of_int a + of_nat k * of_int b)"
proof (intro allI impI)
  fix k assume k: "k \<le> n"
  have "int k * b \<le> int n * b" using k assms(1) by (intro mult_right_mono) simp_all
  with assms(3) have u: "a + int k * b \<le> 2 ^ 53" by linarith
  have "0 \<le> int k * b" using assms(1) by simp
  with assms(2) have l: "- (2 ^ 53) \<le> a + int k * b" by linarith
  from u l have "\<bar>a + int k * b\<bar> \<le> 2 ^ 53" by (simp add: abs_le_iff)
  from is_double_of_int[OF this]
  show "is_double (of_int a + of_nat k * of_int b)" by simp
qed

text \<open>
  C5 (as amended). For a positive time step \<open>d\<close> such that every clock value
  \<open>t0 + k * d\<close> up to the end of the run is a double, so that
  \<open>self._time += self._timestep\<close> computes it without rounding (integer start and step
  of magnitude up to \<open>2^53\<close> are such, by \<open>integer_clock_doubles\<close>),
  \<open>run_incremental run_until\<close> started at time \<open>t0\<close> returns; it has called the step
  exactly \<open>\<lceil>(run_until - t0) / d\<rceil>\<close> times (none when the horizon is already reached),
  in order at the times \<open>t0 + k * d\<close> for \<open>k = 1, \<dots>, n\<close>, and the clock it leaves is
  at or past \<open>run_until\<close>.
\<close>

theorem run_incremental_schedule:
  assumes "0 < d"
    and "\<forall>k \<le> steps_needed t0 d run_until. is_double (t0 + of_nat k * d)"
  shows "run_incremental evolve d run_until t0 env =
           Some (t0 + of_nat (steps_needed t0 d run_until) * d,
                 fold evolve (invocation_times t0 d (steps_needed t0 d run_until)) env)
       \<and> length (invocation_times t0 d (steps_needed t0 d run_until))
           = nat \<lceil>(run_until - t0) / d\<rceil>
       \<and> (\<forall>i < steps_needed t0 d run_until.
            invocation_times t0 d (steps_needed t0 d run_until) ! i = t0 + of_nat (Suc i) * d)
       \<and> run_until \<le> t0 + of_nat (steps_needed t0 d run_until) * d"
proof -
  have "\<forall>i < n. invocation_times t0 d n ! i = t0 + of_nat (Suc i) * d" for n
    unfolding invocation_times_def by (simp del: upt_Suc)
  moreover have "length (invocation_times t0 d n) = n" for n
    unfolding invocation_times_def by simp
  ultimately show ?thesis
    using run_incremental_steps[OF assms(1) refl doubles_add_exactly[OF assms(2)],
        where evolve = evolve and e = env]
      final_time_ge[OF assms(1), where r = run_until and t = t0]
    by (simp add: steps_needed_def)
qed

theorem run_incremental_schedule_witness:
  "(0::rat) < 1
   \<and> list_all (\<lambda>k. is_double (0 + of_nat k * 1)) [0..<11]
   \<and> run_incremental (\<lambda>t log. log @ [t]) 1 10 0 [] = Some (10, [1, 2, 3, 4, 5, 6, 7, 8, 9, 10])"
proof -
  have s: "steps_needed 0 1 10 = 10" by (simp add: steps_needed_def)
  have e: "\<forall>k \<le> 10. is_double (0 + of_nat k * 1)"
    using integer_clock_doubles[of 1 0 10] by simp
  then have l: "list_all (\<lambda>k. is_double (0 + of_nat k * 1)) [0..<11]"
    by (simp add: list_all_iff)
  from run_incremental_schedule [of 1 0 10 "\<lambda>t log. log @ [t]" "[]"] e l s show ?thesis
    by (simp add: invocation_times_def upt_rec)
qed

text \<open>
  With rounding the count can differ. Start at the double \<open>0.1\<close>, step \<open>1.0\<close>, horizon
  the double \<open>1.1\<close>: the sum \<open>0.1 + 1.0\<close> rounds up to the double \<open>1.1\<close>, so the loop
  stops after one call, while \<open>(run_until - t0) / d\<close> is a little above 1 and its
  ceiling is 2.
\<close>

theorem run_incremental_rounding_counterexample:
  "(0::rat) < 1
   \<and> (3602879701896397 / 36028797018963968 :: rat) \<le> 2476979795053773 / 2251799813685248
   \<and> is_double (3602879701896397 / 36028797018963968)
   \<and> is_double 1
   \<and> is_double (2476979795053773 / 2251799813685248)
   \<and> run_incremental (\<lambda>t log. log @ [t]) 1 (2476979795053773 / 2251799813685248)
        (3602879701896397 / 36028797018963968) []
      = Some (2476979795053773 / 2251799813685248, [2476979795053773 / 2251799813685248])
   \<and> nat \<lceil>(2476979795053773 / 2251799813685248 - 3602879701896397 / 36028797018963968) / (1::rat)\<rceil> = 2"
proof -
  have "\<lceil>(2476979795053773 / 2251799813685248 - 3602879701896397 / 36028797018963968) / (1::rat)\<rceil> = 2"
    by (simp add: ceiling_eq_iff)
  moreover have "is_double 1" using is_double_of_int[of 1] by simp
  ultimately show ?thesis
    by (simp add: run_incremental.simps double_tenth_plus_one Let_def
        is_double_tenth is_double_eleven_tenths)
qed

subsection \<open>The split divider\<close>

lemma fold_dict_set_values:
  "snd ` set (fold (\<lambda>c schema. dict_set schema c v) ks acc) \<subseteq> insert v (snd ` set acc)"
proof (induction ks arbitrary: acc)
  case Nil
  then show ?case by auto
next
  case (Cons k ks)
  from Cons.IH[of "dict_set acc k v"] dict_set_values[of acc k v] show ?case by auto
qed

lemma fold_dict_set_keys:
  "fst ` set (fold (\<lambda>c schema. dict_set schema c v) ks acc) = set ks \<union> fst ` set acc"
  by (induction ks arbitrary: acc) (auto simp: dict_set_keys)

lemma counts_schema_tags:
  "map snd (counts_schema ks) = replicate (length (counts_schema ks)) Split"
proof -
  have "snd ` set (counts_schema ks) \<subseteq> {Split}"
    using fold_dict_set_values[of Split ks "[]"] by (simp add: counts_schema_def)
  then have "\<forall>x \<in> set (map snd (counts_schema ks)). x = Split" by auto
  then show ?thesis by (simp add: map_replicate_const[symmetric] flip: replicate_length_same)
qed

text \<open>
  C6. The schema of \<open>DeriveConcentrations\<close> has one count for each configured key,
  each tagged \<open>split\<close>. A variable tagged \<open>split\<close> that holds the non-negative integer
  \<open>v\<close> divides into exactly two daughter values that sum to \<open>v\<close>; the second is the
  floor of \<open>v / 2\<close> and the first takes the remainder; 7 divides into 4 and 3.
\<close>

theorem divide_split_conserves:
  "map snd (counts_schema concentration_keys)
     = replicate (card (set concentration_keys)) Split
   \<and> set (dict_keys (counts_schema concentration_keys)) = set concentration_keys
   \<and> distinct (dict_keys (counts_schema concentration_keys))
   \<and> divide_value Split dflt v = Inr (divide_split v)
   \<and> fst (divide_split v) + snd (divide_split v) = v
   \<and> snd (divide_split v) = v div 2
   \<and> fst (divide_split v) = snd (divide_split v) + v mod 2
   \<and> divide_split 7 = (4, 3)"
proof -
  have "v div 2 + v mod 2 + v div 2 = v" by presburger
  moreover have k: "set (dict_keys (counts_schema concentration_keys)) = set concentration_keys"
    using fold_dict_set_keys[of Split concentration_keys "[]"]
    by (simp add: counts_schema_def dict_keys_def)
  moreover have d: "distinct (dict_keys (counts_schema concentration_keys))"
    using fold_dict_set_distinct[of "[]" Split concentration_keys]
    by (simp add: counts_schema_def dict_keys_def)
  moreover have "length (counts_schema concentration_keys) = card (set concentration_keys)"
    using distinct_card[OF d] k by (simp add: dict_keys_def)
  ultimately show ?thesis by (simp add: divide_split_def counts_schema_tags)
qed

subsection \<open>Merging dicts and accumulating deltas\<close>






lemma fold_step_leaf_Inl [simp]: "fold step_leaf ls (Inl e) = Inl e"
  by (induction ls) (auto simp: step_leaf_def)












subsection \<open>Negative concentrations\<close>


lemma derive_all_zero:
  "counts \<noteq> [] \<Longrightarrow> derive_all 0 counts = Inl ZeroDivisionError"
  by (cases counts) (auto simp: derive_value_def)



lemma assert_non_negative_cases:
  "assert_non_negative concentrations = Inl e \<Longrightarrow> e = AssertionError"
  by (induction concentrations) (auto split: if_splits)





subsection \<open>The timeline process\<close>

lemma timeline_loop_none_due:
  "\<forall>e \<in> set timeline. time < fst e \<Longrightarrow> timeline_loop time i timeline update = (update, timeline)"
proof (induction "length timeline - i" arbitrary: i)
  case 0
  then show ?case by (subst timeline_loop.simps) simp
next
  case (Suc n)
  then have i: "i < length timeline" by simp
  then have "timeline ! i \<in> set timeline" by simp
  with Suc.prems have nd: "\<not> fst (timeline ! i) \<le> time" by fastforce
  from Suc.hyps(2) have "n = length timeline - Suc i" by simp
  from Suc.hyps(1)[OF this Suc.prems] i nd show ?case
    by (subst timeline_loop.simps) (simp add: case_prod_beta)
qed

text \<open>
  C3 (as amended). \<open>TimelineProcess.next_update\<close> depends on the instance's timeline as
  well as on the time step and the input states, and it shortens that timeline when an
  event fires. A call at which no event of the timeline is due (the observed time is
  below every threshold) returns the update \<open>{'global': {'time': timestep}}\<close> and leaves
  the timeline as it was, so a second call with the same time step and input states
  returns the same update.
\<close>

theorem timeline_idle_call_repeatable:
  assumes "\<forall>e \<in> set timeline. time < fst e"
  shows "TimelineProcess_next_update timeline timestep time =
           ([(''global'', [(''time'', PyNum timestep)])], timeline)
       \<and> fst (TimelineProcess_next_update
                (snd (TimelineProcess_next_update timeline timestep time)) timestep time) =
           fst (TimelineProcess_next_update timeline timestep time)"
  by (simp add: TimelineProcess_next_update_def timeline_loop_none_due[OF assms])

theorem timeline_idle_call_repeatable_witness:
  "(0 :: rat) < fst (5 :: rat, [((''cell'', ''x''), PyNum 1)])
   \<and> TimelineProcess_next_update [(5, [((''cell'', ''x''), PyNum 1)])] 1 0 =
       ([(''global'', [(''time'', PyNum 1)])], [(5, [((''cell'', ''x''), PyNum 1)])])"
  using timeline_idle_call_repeatable [of "[(5, [((''cell'', ''x''), PyNum 1)])]" 0 1]
  by simp

text \<open>
  With the timeline \<open>[(0, {('cell', 'x'): 1})]\<close>, the first call at time 0 sets
  \<open>cell.x\<close> and pops the event; the second call on the same instance, with the same
  time step and the same input states, returns only the time increment.
\<close>

theorem timeline_next_update_not_pure:
  "TimelineProcess_next_update [(0, [((''cell'', ''x''), PyNum 1)])] 1 0 =
     ([(''global'', [(''time'', PyNum 1)]),
       (''cell'', [(''x'', PyDict [(''_value'', PyNum 1), (''_updater'', PyStr ''set'')])])], [])
   \<and> TimelineProcess_next_update
       (snd (TimelineProcess_next_update [(0, [((''cell'', ''x''), PyNum 1)])] 1 0)) 1 0 =
     ([(''global'', [(''time'', PyNum 1)])], [])
   \<and> fst (TimelineProcess_next_update [(0, [((''cell'', ''x''), PyNum 1)])] 1 0) \<noteq>
     fst (TimelineProcess_next_update
       (snd (TimelineProcess_next_update [(0, [((''cell'', ''x''), PyNum 1)])] 1 0)) 1 0)"
  by (simp add: TimelineProcess_next_update_def timeline_loop.simps set_state_def
      dict_get_def dict_keys_def)

text \<open>
  C4. Every event whose threshold the observed time has reached should be in the
  returned update, and every event should be emitted exactly once. The code pops the
  head of the list it is iterating over, so the iteration skips the element after every
  event that fires. With three events at thresholds 1, 2 and 3 and a call at time 5, the
  update sets \<open>x\<close> and \<open>z\<close> but not \<open>y\<close>, and the timeline that is left holds the
  event of \<open>z\<close>, which has fired, and not the event of \<open>y\<close>, which has not. The next
  call sets \<open>z\<close> a second time; \<open>y\<close> is never set.
\<close>

theorem timeline_due_event_skipped:
  "TimelineProcess_next_update
     [(1, [((''cell'', ''x''), PyNum 1)]),
      (2, [((''cell'', ''y''), PyNum 2)]),
      (3, [((''cell'', ''z''), PyNum 3)])] 5 5 =
     ([(''global'', [(''time'', PyNum 5)]),
       (''cell'', [(''x'', PyDict [(''_value'', PyNum 1), (''_updater'', PyStr ''set'')]),
                  (''z'', PyDict [(''_value'', PyNum 3), (''_updater'', PyStr ''set'')])])],
      [(3, [((''cell'', ''z''), PyNum 3)])])
   \<and> TimelineProcess_next_update [(3, [((''cell'', ''z''), PyNum 3)])] 5 10 =
     ([(''global'', [(''time'', PyNum 5)]),
       (''cell'', [(''z'', PyDict [(''_value'', PyNum 3), (''_updater'', PyStr ''set'')])])],
      [])"
  by (simp add: TimelineProcess_next_update_def timeline_loop.simps set_state_def
      dict_get_def dict_keys_def)

subsection \<open>The tumor process\<close>

text \<open>
  C10. When the update that \<open>TumorProcess.next_update\<close> returns has a \<open>_delete\<close>
  entry, the update is exactly \<open>{'_delete': {'path': self.self_path}}\<close>: \<open>_delete\<close> is
  its only key, and none of the ports of the process is written.
\<close>

theorem tumor_delete_atomic:
  assumes "dict_get (TumorProcess_next_update self timestep cell_state u1 u2) ''_delete'' \<noteq> None"
  shows "TumorProcess_next_update self timestep cell_state u1 u2 =
           [(''_delete'', PyDict [(''path'', PyTuple (self_path self))])]
       \<and> dict_keys (TumorProcess_next_update self timestep cell_state u1 u2) = [''_delete'']
       \<and> (\<forall>port \<in> set tumor_ports.
            dict_get (TumorProcess_next_update self timestep cell_state u1 u2) port = None)"
  using assms
  by (auto simp: TumorProcess_next_update_def delete_directive_def dict_get_def dict_keys_def
      tumor_ports_def split: if_splits)

theorem tumor_delete_atomic_witness:
  "dict_get (TumorProcess_next_update
      \<lparr>death_PDL1p = 1, death_PDL1n = 1, PDL1n_growth = 1, self_path = [''agents'', ''1'']\<rparr>
      1 ''PDL1n'' 0 0) ''_delete'' \<noteq> None
   \<and> TumorProcess_next_update
      \<lparr>death_PDL1p = 1, death_PDL1n = 1, PDL1n_growth = 1, self_path = [''agents'', ''1'']\<rparr>
      1 ''PDL1n'' 0 0 = [(''_delete'', PyDict [(''path'', PyTuple [''agents'', ''1''])])]"
  using tumor_delete_atomic [of "\<lparr>death_PDL1p = 1, death_PDL1n = 1, PDL1n_growth = 1,
      self_path = [''agents'', ''1'']\<rparr>" 1 "''PDL1n''" 0 0]
  by (simp add: TumorProcess_next_update_def delete_directive_def dict_get_def)

subsection \<open>The loop of the transcription process\<close>

lemma bind_event_time: "bind_event env s event = Inr s' \<Longrightarrow> sim_time s' = sim_time s"
  unfolding bind_event_def Let_def
  by (auto split: if_splits option.splits prod.splits)

lemma advance_event_time: "advance_event env self s event = Inr s' \<Longrightarrow> sim_time s' = sim_time s"
  unfolding advance_event_def Let_def
  by (auto split: if_splits option.splits prod.splits)

lemma handle_event_time: "handle_event env self s ne = Inr s' \<Longrightarrow> sim_time s' = sim_time s"
  unfolding handle_event_def Let_def
  by (auto split: if_splits prod.splits dest!: bind_event_time advance_event_time)

lemma handle_events_time: "handle_events env self s events = Inr s' \<Longrightarrow> sim_time s' = sim_time s"
  by (induction events arbitrary: s) (auto split: sum.splits dest!: handle_event_time)

lemma iteration_time:
  assumes "iteration env self copy_numbers s = Inr s'"
  shows "sim_time s' = double_add (sim_time s)
           (double_div (chromosome_terminator_distance env (chromosome s)) (elongation_rate self))"
  using assms unfolding iteration_def Let_def
  by (auto split: if_splits sum.splits prod.splits dest!: handle_events_time)

lemma carry_frac:
  assumes "0 \<le> x"
  shows "carry x = frac x" "0 \<le> carry x" "carry x < 1"
  using assms by (simp_all add: carry_def py_int_def frac_def frac_lt_1[unfolded frac_def])

lemma toy_next_update:
  "Transcription_next_update toy_collaborators toy_transcription 1 0 10
  = Some (Inr (\<lparr>update_chromosome = 3 / 2, update_unbound_rnaps = - 1\<rparr>,
               \<lparr>promoter_count = 1, elongation_rate = 1, elongation = 1 / 2\<rparr>))"
  by (simp add: Transcription_next_update_def initial_locals_def toy_collaborators_def
      toy_transcription_def initially_bound_def transcription_loop.simps iteration_def
      substrate_def handle_event_def bind_event_def choose_element_def set_add_def
      finish_update_def carry_def py_int_def Let_def floor_eq_iff double_add_def
      double_div_def)

text \<open>
  C8. When \<open>next_update\<close> returns, the accumulator \<open>self.elongation\<close> that it leaves
  is the fractional part of the progress counter of the \<open>Elongation\<close> object at the end
  of the call, and lies in the half-open interval from 0 to 1; the progress counter
  is a non-negative number.
\<close>

theorem elongation_carry_fractional:
  assumes "Transcription_next_update env self timestep chromosome0 original_unbound_rnaps =
             Some (Inr (update, self'))"
    and "0 \<le> elongation_elongation env (update_chromosome update)"
  shows "elongation self' = frac (elongation_elongation env (update_chromosome update))
       \<and> 0 \<le> elongation self' \<and> elongation self' < 1"
proof -
  from assms(1) obtain s where
    "finish_update env self original_unbound_rnaps s = (update, self')"
    by (auto simp: Transcription_next_update_def split: sum.splits option.splits)
  then have "elongation self' = carry (elongation_elongation env (update_chromosome update))"
    by (auto simp: finish_update_def)
  with carry_frac[of "elongation_elongation env (update_chromosome update)"] assms(2)
  show ?thesis by simp
qed

theorem elongation_carry_fractional_witness:
  "Transcription_next_update toy_collaborators toy_transcription 1 0 10
     = Some (Inr (\<lparr>update_chromosome = 3 / 2, update_unbound_rnaps = - 1\<rparr>,
                  \<lparr>promoter_count = 1, elongation_rate = 1, elongation = 1 / 2\<rparr>))
   \<and> 0 \<le> elongation_elongation toy_collaborators
         (update_chromosome \<lparr>update_chromosome = 3 / 2, update_unbound_rnaps = - 1\<rparr>)
   \<and> elongation \<lparr>promoter_count = 1, elongation_rate = 1, elongation = 1 / 2\<rparr>
       = frac (elongation_elongation toy_collaborators (3 / 2))"
proof -
  have h: "0 \<le> elongation_elongation toy_collaborators
         (update_chromosome \<lparr>update_chromosome = 3 / 2, update_unbound_rnaps = - 1\<rparr>)"
    by (simp add: toy_collaborators_def)
  from elongation_carry_fractional [OF toy_next_update h] toy_next_update h
  show ?thesis by simp
qed

subsection \<open>Binding events and the open domains\<close>

lemma dict_del_keys: "fst ` set (dict_del d k) = fst ` set d - {k}"
  by (force simp: dict_del_def image_iff)

lemma choose_element_member:
  "elements \<noteq> [] \<Longrightarrow> \<exists>x. choose_element elements r = Some x \<and> x \<in> set elements"
  by (simp add: choose_element_def)

lemma promoter_consistentD:
  assumes "promoter_consistent env cn s i"
  obtains opn bnd rnaps where
    "chromosome_promoter_order env ! i \<in> set (chromosome_promoters env)"
    "open_domains s (chromosome_promoter_order env ! i) = Some opn"
    "bound_domains s (chromosome_promoter_order env ! i) = Some bnd"
    "promoter_rnaps s (chromosome_promoter_order env ! i) = Some rnaps"
    "distinct opn" "distinct bnd" "set opn \<inter> set bnd = {}"
    "int (length bnd) = bound_rnap s ! i"
    "int (length opn) = cn ! i - bound_rnap s ! i"
    "set bnd \<subseteq> set (map fst rnaps)"
  using assms unfolding promoter_consistent_def Let_def
  by (auto split: option.splits)

lemma promoter_consistentI:
  assumes "chromosome_promoter_order env ! i \<in> set (chromosome_promoters env)"
    "open_domains s (chromosome_promoter_order env ! i) = Some opn"
    "bound_domains s (chromosome_promoter_order env ! i) = Some bnd"
    "promoter_rnaps s (chromosome_promoter_order env ! i) = Some rnaps"
    "distinct opn" "distinct bnd" "set opn \<inter> set bnd = {}"
    "int (length bnd) = bound_rnap s ! i"
    "int (length opn) = cn ! i - bound_rnap s ! i"
    "set bnd \<subseteq> set (map fst rnaps)"
  shows "promoter_consistent env cn s i"
  using assms unfolding promoter_consistent_def Let_def by simp

lemma promoter_consistent_frame:
  assumes "promoter_consistent env cn s i"
    and "open_domains s' (chromosome_promoter_order env ! i) = open_domains s (chromosome_promoter_order env ! i)"
    and "bound_domains s' (chromosome_promoter_order env ! i) = bound_domains s (chromosome_promoter_order env ! i)"
    and "promoter_rnaps s' (chromosome_promoter_order env ! i) = promoter_rnaps s (chromosome_promoter_order env ! i)"
    and "bound_rnap s' ! i = bound_rnap s ! i"
  shows "promoter_consistent env cn s' i"
  using assms unfolding promoter_consistent_def Let_def by (auto split: option.splits)

lemma bind_event_safe:
  assumes inv: "domains_consistent env cn s"
    and ev: "event < length (chromosome_promoter_order env)"
    and pos: "0 < cn ! event - bound_rnap s ! event"
  shows "\<exists>domains domain s'.
           open_domains s (chromosome_promoter_order env ! event) = Some domains
         \<and> choose_element domains (np_random_choice env (random_calls s)) = Some domain
         \<and> domain \<in> set domains
         \<and> bind_event env s event = Inr s'
         \<and> domains_consistent env cn s'
         \<and> bound_rnap s' = (bound_rnap s)[event := bound_rnap s ! event + 1]"
proof -
  let ?order = "chromosome_promoter_order env"
  let ?key = "?order ! event"
  from inv have dist: "distinct ?order" and len: "length (bound_rnap s) = length ?order"
    and lcn: "length cn = length ?order"
    and all: "\<And>i. i < length ?order \<Longrightarrow> promoter_consistent env cn s i"
    by (auto simp: domains_consistent_def list_all_iff)
  from all[OF ev] obtain opn bnd rnaps where c:
    "?key \<in> set (chromosome_promoters env)"
    "open_domains s ?key = Some opn" "bound_domains s ?key = Some bnd"
    "promoter_rnaps s ?key = Some rnaps"
    "distinct opn" "distinct bnd" "set opn \<inter> set bnd = {}"
    "int (length bnd) = bound_rnap s ! event"
    "int (length opn) = cn ! event - bound_rnap s ! event"
    "set bnd \<subseteq> set (map fst rnaps)"
    by (rule promoter_consistentD)
  from c(9) pos have ne: "opn \<noteq> []" by auto
  from choose_element_member[OF ne] obtain d where
    d: "choose_element opn (np_random_choice env (random_calls s)) = Some d" "d \<in> set opn"
    by blast
  obtain new_rnap c' where b: "chromosome_bind_rnap env ?key d (chromosome s) = (new_rnap, c')"
    by (cases "chromosome_bind_rnap env ?key d (chromosome s)")
  define s' where "s' = s\<lparr>chromosome := c',
      bound_rnap := (bound_rnap s)[event := bound_rnap s ! event + 1],
      bound_domains := (bound_domains s)(?key \<mapsto> set_add bnd d),
      open_domains := (open_domains s)(?key \<mapsto> remove1 d opn),
      promoter_rnaps := (promoter_rnaps s)(?key \<mapsto> dict_set rnaps d new_rnap),
      unbound_rnaps := unbound_rnaps s - 1,
      random_calls := Suc (random_calls s)\<rparr>"
  have res: "bind_event env s event = Inr s'"
    using ev c d b len unfolding bind_event_def s'_def by (simp add: Let_def)
  have dn: "d \<notin> set bnd" using d(2) c(7) by auto
  have "promoter_consistent env cn s' i" if i: "i < length ?order" for i
  proof (cases "i = event")
    case True
    have "promoter_consistent env cn s' event"
    proof (rule promoter_consistentI)
      show "?key \<in> set (chromosome_promoters env)" by (rule c(1))
      show "open_domains s' ?key = Some (remove1 d opn)" by (simp add: s'_def)
      show "bound_domains s' ?key = Some (bnd @ [d])" using dn by (simp add: s'_def set_add_def)
      show "promoter_rnaps s' ?key = Some (dict_set rnaps d new_rnap)" by (simp add: s'_def)
      show "distinct (remove1 d opn)" using c(5) by simp
      show "distinct (bnd @ [d])" using c(6) dn by simp
      show "set (remove1 d opn) \<inter> set (bnd @ [d]) = {}" using c(5) c(7) by auto
      show "int (length (bnd @ [d])) = bound_rnap s' ! event"
        using c(8) ev len by (simp add: s'_def)
      show "int (length (remove1 d opn)) = cn ! event - bound_rnap s' ! event"
      proof -
        from ne have "Suc 0 \<le> length opn" by (cases opn) simp_all
        then show ?thesis
          using c(9) d(2) ev len by (simp add: s'_def length_remove1 of_nat_diff)
      qed
      show "set (bnd @ [d]) \<subseteq> set (map fst (dict_set rnaps d new_rnap))"
        using c(10) by (simp add: dict_set_keys subset_insertI2)
    qed
    with True show ?thesis by simp
  next
    case False
    with dist i ev have k: "?order ! i \<noteq> ?key" by (simp add: nth_eq_iff_index_eq)
    show ?thesis
      by (rule promoter_consistent_frame[OF all[OF i]]) (use k False in \<open>simp_all add: s'_def\<close>)
  qed
  then have "domains_consistent env cn s'"
    using dist len lcn by (simp add: domains_consistent_def list_all_iff s'_def)
  moreover have "bound_rnap s' = (bound_rnap s)[event := bound_rnap s ! event + 1]"
    by (simp add: s'_def)
  ultimately show ?thesis using c(2) d res by blast
qed

lemma advance_event_safe:
  assumes inv: "domains_consistent env cn s"
    and ev: "event - promoter_count self < length (chromosome_promoter_order env)"
    and pos: "0 < bound_rnap s ! (event - promoter_count self)"
  shows "\<exists>s'. advance_event env self s event = Inr s' \<and> domains_consistent env cn s'
             \<and> bound_rnap s' = (bound_rnap s)[event - promoter_count self :=
                  bound_rnap s ! (event - promoter_count self) - 1]"
proof -
  let ?order = "chromosome_promoter_order env"
  let ?i = "event - promoter_count self"
  let ?key = "?order ! ?i"
  from inv have dist: "distinct ?order" and len: "length (bound_rnap s) = length ?order"
    and lcn: "length cn = length ?order"
    and all: "\<And>i. i < length ?order \<Longrightarrow> promoter_consistent env cn s i"
    by (auto simp: domains_consistent_def list_all_iff)
  from all[OF ev] obtain opn bnd rnaps where c:
    "?key \<in> set (chromosome_promoters env)"
    "open_domains s ?key = Some opn" "bound_domains s ?key = Some bnd"
    "promoter_rnaps s ?key = Some rnaps"
    "distinct opn" "distinct bnd" "set opn \<inter> set bnd = {}"
    "int (length bnd) = bound_rnap s ! ?i"
    "int (length opn) = cn ! ?i - bound_rnap s ! ?i"
    "set bnd \<subseteq> set (map fst rnaps)"
    by (rule promoter_consistentD)
  from c(8) pos have ne: "bnd \<noteq> []" by auto
  from choose_element_member[OF ne] obtain d where
    d: "choose_element bnd (np_random_choice env (random_calls s)) = Some d" "d \<in> set bnd"
    by blast
  from d(2) c(10) have "d \<in> fst ` set rnaps" by auto
  then obtain rnap where r: "map_of rnaps d = Some rnap"
    by (cases "map_of rnaps d") (auto simp: map_of_eq_None_iff)
  define s' where "s' = s\<lparr>chromosome := rnap_start_transcribing env rnap (chromosome s),
      open_domains := (open_domains s)(?key \<mapsto> set_add opn d),
      bound_domains := (bound_domains s)(?key \<mapsto> remove1 d bnd),
      bound_rnap := (bound_rnap s)[?i := bound_rnap s ! ?i - 1],
      promoter_rnaps := (promoter_rnaps s)(?key \<mapsto> dict_del rnaps d),
      random_calls := Suc (random_calls s)\<rparr>"
  have res: "advance_event env self s event = Inr s'"
    using ev c d r len unfolding advance_event_def s'_def by (simp add: Let_def)
  have dn: "d \<notin> set opn" using d(2) c(7) by auto
  have "promoter_consistent env cn s' i" if i: "i < length ?order" for i
  proof (cases "i = ?i")
    case True
    have "promoter_consistent env cn s' ?i"
    proof (rule promoter_consistentI)
      show "?key \<in> set (chromosome_promoters env)" by (rule c(1))
      show "open_domains s' ?key = Some (opn @ [d])" using dn by (simp add: s'_def set_add_def)
      show "bound_domains s' ?key = Some (remove1 d bnd)" by (simp add: s'_def)
      show "promoter_rnaps s' ?key = Some (dict_del rnaps d)" by (simp add: s'_def)
      show "distinct (opn @ [d])" using c(5) dn by simp
      show "distinct (remove1 d bnd)" using c(6) by simp
      show "set (opn @ [d]) \<inter> set (remove1 d bnd) = {}" using c(6) c(7) by auto
      show "int (length (remove1 d bnd)) = bound_rnap s' ! ?i"
      proof -
        from ne have "Suc 0 \<le> length bnd" by (cases bnd) simp_all
        then show ?thesis
          using c(8) d(2) ev len by (simp add: s'_def length_remove1 of_nat_diff)
      qed
      show "int (length (opn @ [d])) = cn ! ?i - bound_rnap s' ! ?i"
        using c(9) ev len by (simp add: s'_def)
      show "set (remove1 d bnd) \<subseteq> set (map fst (dict_del rnaps d))"
        using c(10) c(6) by (auto simp add: dict_del_keys)
    qed
    with True show ?thesis by simp
  next
    case False
    with dist i ev have k: "?order ! i \<noteq> ?key" by (simp add: nth_eq_iff_index_eq)
    show ?thesis
      by (rule promoter_consistent_frame[OF all[OF i]]) (use k False in \<open>simp_all add: s'_def\<close>)
  qed
  then have "domains_consistent env cn s'"
    using dist len lcn by (simp add: domains_consistent_def list_all_iff s'_def)
  moreover have "bound_rnap s' = (bound_rnap s)[?i := bound_rnap s ! ?i - 1]"
    by (simp add: s'_def)
  ultimately show ?thesis using res by blast
qed

text \<open>
  The bookkeeping that \<open>next_update\<close> builds before the loop is consistent, when the
  promoters of the chromosome are distinct and declared, every promoter has its
  domains and its dict of RNAP (keyed by the domain of the RNAP), the copy number of a
  promoter is the number of its domains, and the bound RNAP sit on domains of their
  promoter.
\<close>

lemma init_domains_result:
  assumes "\<forall>k \<in> set keys. p_domains k \<noteq> None"
  shows "init_domains env p_rnaps p_domains keys (b_rnap, opn, bnd) =
           Inr (b_rnap @ map (\<lambda>k. int (length (initially_bound env p_rnaps k))) keys,
                (\<lambda>k. if k \<in> set keys
                      then Some (filter (\<lambda>d. d \<notin> set (initially_bound env p_rnaps k))
                                   (the (p_domains k)))
                      else opn k),
                (\<lambda>k. if k \<in> set keys then Some (initially_bound env p_rnaps k) else bnd k))"
  using assms
proof (induction keys arbitrary: b_rnap opn bnd)
  case Nil
  then show ?case by simp
next
  case (Cons key keys)
  from Cons.prems obtain domains where d: "p_domains key = Some domains" by auto
  from Cons.prems have rest: "\<forall>k \<in> set keys. p_domains k \<noteq> None" by simp
  show ?case
    by (simp add: d Let_def Cons.IH[OF rest] initially_bound_def fun_eq_iff)
qed

lemma length_filter_not_member:
  assumes "distinct xs" "distinct ys" "set ys \<subseteq> set xs"
  shows "int (length (filter (\<lambda>d. d \<notin> set ys) xs)) = int (length xs) - int (length ys)"
proof -
  have "length (filter (\<lambda>d. d \<notin> set ys) xs) = card (set (filter (\<lambda>d. d \<notin> set ys) xs))"
    using assms(1) by (simp only: distinct_card[OF distinct_filter])
  also have "set (filter (\<lambda>d. d \<notin> set ys) xs) = set xs - set ys" by auto
  also have "card (set xs - set ys) = card (set xs) - card (set ys)"
    using assms(3) by (simp add: card_Diff_subset)
  finally have "length (filter (\<lambda>d. d \<notin> set ys) xs) = length xs - length ys"
    using assms by (simp add: distinct_card)
  moreover have "length ys \<le> length xs"
    using assms by (metis card_mono distinct_card List.finite_set)
  ultimately show ?thesis by simp
qed

lemma initial_locals_consistent:
  fixes env :: "('c, 'd, 'r) collaborators"
  defines "order \<equiv> chromosome_promoter_order env"
  assumes dist: "distinct order"
    and prom: "set order \<subseteq> set (chromosome_promoters env)"
    and doms: "\<forall>i < length order. \<exists>domains.
                 chromosome_promoter_domains env c0 (order ! i) = Some domains
               \<and> distinct domains
               \<and> chromosome_promoter_copy_numbers env c0 ! i = int (length domains)
               \<and> set (initially_bound env (chromosome_promoter_rnaps env c0) (order ! i))
                   \<subseteq> set domains"
    and lcn: "length (chromosome_promoter_copy_numbers env c0) = length order"
    and rnaps: "\<forall>k \<in> set order. \<exists>rs. chromosome_promoter_rnaps env c0 k = Some rs
               \<and> (\<forall>(d, r) \<in> set rs. rnap_domain env r = d)"
  shows "\<exists>s0. initial_locals env self c0 u = Inr s0
             \<and> domains_consistent env (chromosome_promoter_copy_numbers env c0) s0"
proof -
  let ?pr = "chromosome_promoter_rnaps env c0"
  let ?pd = "chromosome_promoter_domains env c0"
  let ?cn = "chromosome_promoter_copy_numbers env c0"
  let ?B = "initially_bound env ?pr"
  have some: "\<forall>k \<in> set order. ?pd k \<noteq> None"
    using doms by (metis in_set_conv_nth option.distinct(1))
  define s0 :: "('c, 'd, 'r) locals" where "s0 =
    \<lparr>chromosome = new_Elongation env (elongation self) c0,
     bound_rnap = map (\<lambda>k. int (length (?B k))) order,
     open_domains = (\<lambda>k. if k \<in> set order
                      then Some (filter (\<lambda>d. d \<notin> set (?B k)) (the (?pd k))) else None),
     bound_domains = (\<lambda>k. if k \<in> set order then Some (?B k) else None),
     promoter_rnaps = ?pr, unbound_rnaps = u, sim_time = 0, random_calls = 0\<rparr>"
  have res: "initial_locals env self c0 u = Inr s0"
    unfolding initial_locals_def Let_def order_def[symmetric]
    by (simp add: init_domains_result[OF some] s0_def)
  have "promoter_consistent env ?cn s0 i" if i: "i < length order" for i
  proof -
    let ?key = "order ! i"
    from i have mem: "?key \<in> set order" by simp
    from doms i obtain domains where d: "?pd ?key = Some domains" "distinct domains"
      "?cn ! i = int (length domains)" "set (?B ?key) \<subseteq> set domains" by blast
    from rnaps mem obtain rs where r: "?pr ?key = Some rs" "\<forall>(d, r) \<in> set rs. rnap_domain env r = d"
      by blast
    have dB: "distinct (?B ?key)" by (simp add: initially_bound_def)
    show ?thesis
    proof (rule promoter_consistentI)
      show "chromosome_promoter_order env ! i \<in> set (chromosome_promoters env)"
        using prom mem by (auto simp: order_def)
      show "open_domains s0 (chromosome_promoter_order env ! i) =
          Some (filter (\<lambda>d. d \<notin> set (?B ?key)) domains)"
        using mem d by (simp add: s0_def order_def)
      show "bound_domains s0 (chromosome_promoter_order env ! i) = Some (?B ?key)"
        using mem by (simp add: s0_def order_def)
      show "promoter_rnaps s0 (chromosome_promoter_order env ! i) = Some rs"
        using r by (simp add: s0_def order_def)
      show "distinct (filter (\<lambda>d. d \<notin> set (?B ?key)) domains)" using d(2) by simp
      show "distinct (?B ?key)" by (rule dB)
      show "set (filter (\<lambda>d. d \<notin> set (?B ?key)) domains) \<inter> set (?B ?key) = {}" by auto
      show "int (length (?B ?key)) = bound_rnap s0 ! i" using i by (simp add: s0_def)
      show "int (length (filter (\<lambda>d. d \<notin> set (?B ?key)) domains)) = ?cn ! i - bound_rnap s0 ! i"
        using i d length_filter_not_member[OF d(2) dB d(4)] by (simp add: s0_def)
      show "set (?B ?key) \<subseteq> set (map fst rs)"
      proof
        fix x assume "x \<in> set (?B ?key)"
        then obtain p where p: "p \<in> set rs" "x = rnap_domain env (snd p)"
          by (auto simp: initially_bound_def r(1))
        with r(2) have "rnap_domain env (snd p) = fst p" by (cases p) auto
        with p show "x \<in> set (map fst rs)" by simp
      qed
    qed
  qed
  then have "domains_consistent env ?cn s0"
    using dist lcn by (simp add: domains_consistent_def list_all_iff s0_def order_def)
  with res show ?thesis by blast
qed

lemma domains_consistent_frame:
  assumes "domains_consistent env cn s"
    and "open_domains s' = open_domains s" "bound_domains s' = bound_domains s"
    and "promoter_rnaps s' = promoter_rnaps s" "bound_rnap s' = bound_rnap s"
  shows "domains_consistent env cn s'"
proof -
  have "promoter_consistent env cn s' i" if "promoter_consistent env cn s i" for i
    by (rule promoter_consistent_frame[OF that]) (simp_all add: assms)
  with assms show ?thesis
    by (simp add: domains_consistent_def list_all_iff)
qed

lemma substrate_binding_entry:
  assumes "domains_consistent env cn s" "event < length (chromosome_promoter_order env)"
  shows "substrate cn s ! event = cn ! event - bound_rnap s ! event"
  using assms by (simp add: substrate_def domains_consistent_def nth_append)

lemma bind_handle_event_safe:
  assumes "domains_consistent env copy_numbers s"
    and "promoter_count self \<le> length (chromosome_promoter_order env)"
    and "event < promoter_count self"
    and "0 < substrate copy_numbers s ! event"
  shows "\<exists>domains domain s'.
           open_domains s (chromosome_promoter_order env ! event) = Some domains
         \<and> domains \<noteq> []
         \<and> choose_element domains (np_random_choice env (random_calls s)) = Some domain
         \<and> domain \<in> set domains
         \<and> handle_event env self s (now, event) = Inr s'
         \<and> domains_consistent env copy_numbers s'
         \<and> bound_rnap s' = (bound_rnap s)[event := bound_rnap s ! event + 1]"
proof -
  obtain terminations c' where
    e: "elongation_elongate env (double_add (sim_time s) now) (elongation_rate self)
          (chromosome s) = (terminations, c')"
    by (cases "elongation_elongate env (double_add (sim_time s) now) (elongation_rate self)
          (chromosome s)")
  define s1 where "s1 = s\<lparr>chromosome := c', unbound_rnaps := unbound_rnaps s + terminations\<rparr>"
  have inv1: "domains_consistent env copy_numbers s1"
    by (rule domains_consistent_frame[OF assms(1)]) (simp_all add: s1_def)
  have ev: "event < length (chromosome_promoter_order env)" using assms(2,3) by simp
  have pos: "0 < copy_numbers ! event - bound_rnap s1 ! event"
    using assms(4) substrate_binding_entry[OF assms(1) ev] by (simp add: s1_def)
  from bind_event_safe[OF inv1 ev pos] obtain domains domain s' where r:
    "open_domains s1 (chromosome_promoter_order env ! event) = Some domains"
    "choose_element domains (np_random_choice env (random_calls s1)) = Some domain"
    "domain \<in> set domains" "bind_event env s1 event = Inr s'"
    "domains_consistent env copy_numbers s'"
    "bound_rnap s' = (bound_rnap s1)[event := bound_rnap s1 ! event + 1]" by blast
  have h: "handle_event env self s (now, event) = Inr s'"
    using assms(3) r(4) by (simp add: handle_event_def e s1_def)
  from r(3) have "domains \<noteq> []" by auto
  with r h show ?thesis by (auto simp: s1_def)
qed

text \<open>
  C9. In a consistent bookkeeping, when a binding event is reported for a promoter
  (an event index below \<open>promoter_count\<close>) whose entry of the substrate vector, the copy
  number minus the bound count, is positive, the set of open domains of the promoter is
  not empty, \<open>choose_element\<close> returns one of its domains and not \<open>None\<close>, the handling
  of the event completes without an exception (so no operation receives \<open>None\<close>), and
  the bookkeeping it leaves is consistent again, with the bound count of the promoter
  one higher.
\<close>

theorem binding_event_never_none:
  assumes "domains_consistent env copy_numbers s"
    and "promoter_count self \<le> length (chromosome_promoter_order env)"
    and "event < promoter_count self"
    and "0 < substrate copy_numbers s ! event"
  shows "\<exists>domains domain s'.
           open_domains s (chromosome_promoter_order env ! event) = Some domains
         \<and> domains \<noteq> []
         \<and> choose_element domains (np_random_choice env (random_calls s)) = Some domain
         \<and> domain \<in> set domains
         \<and> handle_event env self s (now, event) = Inr s'
         \<and> domains_consistent env copy_numbers s'
         \<and> bound_rnap s' = (bound_rnap s)[event := bound_rnap s ! event + 1]"
  using assms by (rule bind_handle_event_safe)

theorem binding_event_never_none_witness:
  "domains_consistent toy_collaborators [1] toy_locals
   \<and> promoter_count toy_transcription \<le> length (chromosome_promoter_order toy_collaborators)
   \<and> (0 :: nat) < promoter_count toy_transcription
   \<and> 0 < substrate [1] toy_locals ! 0
   \<and> (\<exists>domains domain s'.
         open_domains toy_locals (chromosome_promoter_order toy_collaborators ! 0) = Some domains
       \<and> domains \<noteq> []
       \<and> choose_element domains (np_random_choice toy_collaborators (random_calls toy_locals))
           = Some domain
       \<and> domain \<in> set domains
       \<and> handle_event toy_collaborators toy_transcription toy_locals (0, 0) = Inr s'
       \<and> domains_consistent toy_collaborators [1] s'
       \<and> bound_rnap s' = (bound_rnap toy_locals)[0 := bound_rnap toy_locals ! 0 + 1])
   \<and> handle_event toy_collaborators toy_transcription toy_locals (0, 0)
     = Inr \<lparr>chromosome = 3 / 4, bound_rnap = [1], open_domains = [''pA'' \<mapsto> []],
        bound_domains = [''pA'' \<mapsto> [0]], promoter_rnaps = [''pA'' \<mapsto> [(0, 0)]],
        unbound_rnaps = 9, sim_time = 0, random_calls = 2\<rparr>"
proof -
  have a: "domains_consistent toy_collaborators [1] toy_locals"
    by (simp add: domains_consistent_def promoter_consistent_def toy_collaborators_def
        toy_locals_def)
  have b: "promoter_count toy_transcription \<le> length (chromosome_promoter_order toy_collaborators)"
    by (simp add: toy_transcription_def toy_collaborators_def)
  have c: "(0 :: nat) < promoter_count toy_transcription"
    by (simp add: toy_transcription_def)
  have d: "0 < substrate [1] toy_locals ! 0"
    by (simp add: substrate_def toy_locals_def)
  have f: "handle_event toy_collaborators toy_transcription toy_locals (0, 0)
     = Inr \<lparr>chromosome = 3 / 4, bound_rnap = [1], open_domains = [''pA'' \<mapsto> []],
        bound_domains = [''pA'' \<mapsto> [0]], promoter_rnaps = [''pA'' \<mapsto> [(0, 0)]],
        unbound_rnaps = 9, sim_time = 0, random_calls = 2\<rparr>"
    by (simp add: handle_event_def bind_event_def toy_collaborators_def toy_transcription_def
        toy_locals_def choose_element_def set_add_def Let_def)
  from binding_event_never_none [OF a b c d, of 0] a b c d f show ?thesis by blast
qed

text \<open>
  The same for an advancement event, and for the whole list of events of one interval:
  when the initiation system reports a firing sequence from the bound counts, the loop
  over the events completes without an exception.
\<close>

lemma advance_handle_event_safe:
  assumes "domains_consistent env copy_numbers s"
    and "\<not> event < promoter_count self"
    and "event - promoter_count self < length (chromosome_promoter_order env)"
    and "0 < bound_rnap s ! (event - promoter_count self)"
  shows "\<exists>s'. handle_event env self s (now, event) = Inr s'
             \<and> domains_consistent env copy_numbers s'
             \<and> bound_rnap s' = (bound_rnap s)[event - promoter_count self :=
                  bound_rnap s ! (event - promoter_count self) - 1]"
proof -
  obtain terminations c' where
    e: "elongation_elongate env (double_add (sim_time s) now) (elongation_rate self)
          (chromosome s) = (terminations, c')"
    by (cases "elongation_elongate env (double_add (sim_time s) now) (elongation_rate self)
          (chromosome s)")
  define s1 where "s1 = s\<lparr>chromosome := c', unbound_rnaps := unbound_rnaps s + terminations\<rparr>"
  have inv1: "domains_consistent env copy_numbers s1"
    by (rule domains_consistent_frame[OF assms(1)]) (simp_all add: s1_def)
  have pos: "0 < bound_rnap s1 ! (event - promoter_count self)"
    using assms(4) by (simp add: s1_def)
  from advance_event_safe[OF inv1 assms(3) pos] obtain s' where r:
    "advance_event env self s1 event = Inr s'" "domains_consistent env copy_numbers s'"
    "bound_rnap s' = (bound_rnap s1)[event - promoter_count self :=
        bound_rnap s1 ! (event - promoter_count self) - 1]" by blast
  have "handle_event env self s (now, event) = Inr s'"
    using assms(2) r(1) by (simp add: handle_event_def e s1_def)
  with r show ?thesis by (auto simp: s1_def)
qed

lemma handle_events_safe:
  assumes pc: "promoter_count self \<le> length (chromosome_promoter_order env)"
  shows "domains_consistent env copy_numbers s \<Longrightarrow>
         firing_sequence (promoter_count self) copy_numbers (bound_rnap s) (map snd events) \<Longrightarrow>
         \<exists>s'. handle_events env self s events = Inr s' \<and> domains_consistent env copy_numbers s'"
proof (induction events arbitrary: s)
  case Nil
  then show ?case by simp
next
  case (Cons ne events)
  obtain now event where ne: "ne = (now, event)" by (cases ne)
  from Cons.prems(1) have len: "length (bound_rnap s) = length (chromosome_promoter_order env)"
    by (simp add: domains_consistent_def)
  show ?case
  proof (cases "event < promoter_count self")
    case True
    with Cons.prems(2) have f: "0 < copy_numbers ! event - bound_rnap s ! event"
      "firing_sequence (promoter_count self) copy_numbers
         ((bound_rnap s)[event := bound_rnap s ! event + 1]) (map snd events)"
      by (simp_all add: ne)
    from True pc have ev: "event < length (chromosome_promoter_order env)" by simp
    from f(1) substrate_binding_entry[OF Cons.prems(1) ev]
    have "0 < substrate copy_numbers s ! event" by simp
    from bind_handle_event_safe[OF Cons.prems(1) pc True this, of now]
    obtain s1 where s1: "handle_event env self s (now, event) = Inr s1"
      "domains_consistent env copy_numbers s1"
      "bound_rnap s1 = (bound_rnap s)[event := bound_rnap s ! event + 1]" by blast
    from Cons.IH[OF s1(2)] f(2) s1(3) obtain s' where
      "handle_events env self s1 events = Inr s'" "domains_consistent env copy_numbers s'"
      by auto
    with s1(1) show ?thesis by (auto simp: ne)
  next
    case False
    with Cons.prems(2) len have f:
      "event - promoter_count self < length (chromosome_promoter_order env)"
      "0 < bound_rnap s ! (event - promoter_count self)"
      "firing_sequence (promoter_count self) copy_numbers
         ((bound_rnap s)[event - promoter_count self :=
            bound_rnap s ! (event - promoter_count self) - 1]) (map snd events)"
      by (simp_all add: ne)
    from advance_handle_event_safe[OF Cons.prems(1) False f(1) f(2), of now]
    obtain s1 where s1: "handle_event env self s (now, event) = Inr s1"
      "domains_consistent env copy_numbers s1"
      "bound_rnap s1 = (bound_rnap s)[event - promoter_count self :=
            bound_rnap s ! (event - promoter_count self) - 1]" by blast
    from Cons.IH[OF s1(2)] f(3) s1(3) obtain s' where
      "handle_events env self s1 events = Inr s'" "domains_consistent env copy_numbers s'"
      by auto
    with s1(1) show ?thesis by (auto simp: ne)
  qed
qed

subsection \<open>Termination of the loop\<close>

lemma iteration_safe:
  assumes inv: "domains_consistent env cn s"
    and pc: "promoter_count self \<le> length (chromosome_promoter_order env)"
    and fire: "reports_firing_sequences env (promoter_count self) cn"
    and rate: "elongation_rate self \<noteq> 0"
  shows "\<exists>s'. iteration env self cn s = Inr s' \<and> domains_consistent env cn s'
           \<and> sim_time s' = double_add (sim_time s)
                (double_div (chromosome_terminator_distance env (chromosome s))
                   (elongation_rate self))"
proof -
  let ?interval = "double_div (chromosome_terminator_distance env (chromosome s))
                     (elongation_rate self)"
  let ?events = "initiation_evolve env (random_calls s) ?interval (substrate cn s)"
  define sr where "sr = s\<lparr>random_calls := Suc (random_calls s)\<rparr>"
  have invr: "domains_consistent env cn sr"
    by (rule domains_consistent_frame[OF inv]) (simp_all add: sr_def)
  from inv have len: "length (bound_rnap s) = length cn"
    by (simp add: domains_consistent_def)
  from fire[unfolded reports_firing_sequences_def, rule_format, OF len,
      of "random_calls s" ?interval "unbound_rnaps s"]
  have "firing_sequence (promoter_count self) cn (bound_rnap sr) (map snd ?events)"
    by (simp add: substrate_def sr_def)
  from handle_events_safe[OF pc invr this] obtain s2 where s2:
    "handle_events env self sr ?events = Inr s2" "domains_consistent env cn s2" by blast
  from handle_events_time[OF s2(1)] have t2: "sim_time s2 = sim_time s" by (simp add: sr_def)
  obtain terminations c' where e:
    "elongation_elongate env (double_add (sim_time s2) ?interval) (elongation_rate self)
       (chromosome s2) = (terminations, c')"
    by (cases "elongation_elongate env (double_add (sim_time s2) ?interval)
       (elongation_rate self) (chromosome s2)")
  define s' where "s' = s2\<lparr>chromosome := c',
      unbound_rnaps := unbound_rnaps s2 + terminations,
      sim_time := double_add (sim_time s2) ?interval\<rparr>"
  have "iteration env self cn s = Inr s'"
    using rate s2(1) e by (simp add: iteration_def Let_def sr_def s'_def)
  moreover have "domains_consistent env cn s'"
    by (rule domains_consistent_frame[OF s2(2)]) (simp_all add: s'_def)
  moreover have "sim_time s' = double_add (sim_time s) ?interval"
    by (simp add: s'_def t2)
  ultimately show ?thesis by blast
qed

lemma clock_progress:
  fixes r T t d :: rat
  assumes r: "0 < r" "r \<le> 2 powi 1021"
    and T: "T * r \<le> 2 powi 50"
    and d: "1 \<le> d"
    and t: "0 \<le> t" "t < T"
  shows "t + 1 / (8 * r) \<le> double_add t (double_div d r)"
proof -
  define eps :: rat where "eps = 2 powi (- 53)"
  have eps: "0 < eps" "eps \<le> 1 / 2" "eps * 2 powi 50 = 1 / 8"
    by (simp_all add: eps_def power_int_minus)
  have inv_r: "2 powi (- 1021) \<le> 1 / r"
  proof -
    have "1 / (2 powi 1021) \<le> 1 / r" using r by (intro divide_left_mono) simp_all
    moreover have "(2::rat) powi (- 1021) = 1 / 2 powi 1021"
      by (simp only: power_int_minus inverse_eq_divide)
    ultimately show ?thesis by simp
  qed
  have low: "(2::rat) powi (- 1022) \<le> 2 powi (- 1021)"
    by (intro power_int_increasing) simp_all
  have q: "1 / r \<le> d / r" using d r by (simp add: divide_right_mono)
  have "2 powi (- 1022) \<le> d / r" using low inv_r q by linarith
  from round_double_lower[OF this] have i1: "(d / r) * (1 - eps) \<le> double_div d r"
    by (simp add: double_div_def eps_def)
  define i where "i = double_div d r"
  have "(1 / r) * (1 - eps) \<le> (d / r) * (1 - eps)"
    using q eps by (intro mult_right_mono) simp_all
  moreover have "(1 / r) * (1 / 2) \<le> (1 / r) * (1 - eps)"
    using eps r by (intro mult_left_mono) simp_all
  ultimately have i2: "1 / (2 * r) \<le> i" using i1 by (simp add: i_def)
  have half: "(2::rat) powi (- 1022) = 2 powi (- 1021) / 2"
  proof -
    have "(2::rat) powi (- 1021) = 2 powi (- 1022 + 1)" by simp
    also have "\<dots> = 2 powi (- 1022) * 2 powi 1" by (rule power_int_add) simp
    finally show ?thesis by simp
  qed
  have "2 powi (- 1021) / 2 \<le> (1 / r) / 2" using inv_r by simp
  then have "2 powi (- 1022) \<le> 1 / (2 * r)" by (simp add: half)
  with i2 t have "2 powi (- 1022) \<le> t + i" by linarith
  from round_double_lower[OF this] have s1: "(t + i) * (1 - eps) \<le> double_add t i"
    by (simp add: double_add_def eps_def)
  have ipos: "0 \<le> i" using i2 r by (meson divide_nonneg_pos less_eq_rat_def order_trans zero_le_one mult_pos_pos zero_less_numeral)
  have "eps * t \<le> eps * T" using t eps by (intro mult_left_mono) simp_all
  moreover have "eps * T \<le> 1 / (8 * r)"
  proof -
    have "T \<le> 2 powi 50 / r" using T r by (simp add: pos_le_divide_eq)
    then have "eps * T \<le> eps * (2 powi 50 / r)" using eps by (intro mult_left_mono) simp_all
    also have "\<dots> = (eps * 2 powi 50) / r" by simp
    also have "\<dots> = 1 / (8 * r)" by (simp only: eps)
    finally show ?thesis .
  qed
  ultimately have et: "eps * t \<le> 1 / (8 * r)" by linarith
  have "i * (1 / 2) \<le> i * (1 - eps)" using ipos eps by (intro mult_left_mono) simp_all
  moreover have "(1 / (2 * r)) * (1 / 2) \<le> i * (1 / 2)" using i2 by simp
  ultimately have ie: "1 / (4 * r) \<le> i * (1 - eps)" by simp
  have "(t + i) * (1 - eps) = t + i * (1 - eps) - eps * t" by (simp add: algebra_simps)
  moreover have "1 / (4 * r) - 1 / (8 * r) = 1 / (8 * r)" using r by (simp add: field_simps)
  ultimately have "t + 1 / (8 * r) \<le> (t + i) * (1 - eps)" using ie et by linarith
  with s1 show ?thesis by (simp add: i_def)
qed

lemma loop_returns:
  assumes r: "0 < elongation_rate self" "elongation_rate self \<le> 2 powi 1021"
    and T: "timestep * elongation_rate self \<le> 2 powi 50"
    and d: "\<forall>c. 1 \<le> chromosome_terminator_distance env c"
    and pc: "promoter_count self \<le> length (chromosome_promoter_order env)"
    and fire: "reports_firing_sequences env (promoter_count self) cn"
  shows "domains_consistent env cn s \<Longrightarrow> 0 \<le> sim_time s \<Longrightarrow>
         nat \<lceil>(timestep - sim_time s) * (8 * elongation_rate self)\<rceil> \<le> N \<Longrightarrow>
         \<exists>n s1. n \<le> N \<and> transcription_loop env self cn timestep s = Some (Inr s1)
               \<and> iterations env self cn n s = Inr s1 \<and> timestep \<le> sim_time s1"
proof (induction N arbitrary: s)
  case 0
  then have "(timestep - sim_time s) * (8 * elongation_rate self) \<le> 0"
    by (simp add: ceiling_le_zero)
  with r have nlt: "\<not> sim_time s < timestep"
    by (simp add: mult_le_0_iff)
  then have "transcription_loop env self cn timestep s = Some (Inr s)"
    by (subst transcription_loop.simps) simp
  moreover have "iterations env self cn 0 s = Inr s" by simp
  moreover have "timestep \<le> sim_time s" using nlt by simp
  ultimately show ?case by blast
next
  case (Suc N)
  show ?case
  proof (cases "sim_time s < timestep")
    case False
    then have "transcription_loop env self cn timestep s = Some (Inr s)"
      by (subst transcription_loop.simps) simp
    moreover have "iterations env self cn 0 s = Inr s" by simp
    moreover have "timestep \<le> sim_time s" using False by simp
    ultimately show ?thesis by (intro exI[of _ 0] exI[of _ s]) simp
  next
    case True
    let ?r = "elongation_rate self"
    from r have rn: "?r \<noteq> 0" by simp
    from iteration_safe[OF Suc.prems(1) pc fire rn] obtain s' where s':
      "iteration env self cn s = Inr s'" "domains_consistent env cn s'"
      "sim_time s' = double_add (sim_time s)
         (double_div (chromosome_terminator_distance env (chromosome s)) ?r)" by blast
    from clock_progress[OF r T d[rule_format] Suc.prems(2) True, of "chromosome s"] s'(3)
    have p: "sim_time s + 1 / (8 * ?r) \<le> sim_time s'" by simp
    have "0 \<le> 1 / (8 * ?r)" using r by simp
    with p Suc.prems(2) have t0: "0 \<le> sim_time s'" by linarith
    have "(timestep - sim_time s') * (8 * ?r) \<le>
          (timestep - (sim_time s + 1 / (8 * ?r))) * (8 * ?r)"
      using p r by (intro mult_right_mono) simp_all
    also have "\<dots> = (timestep - sim_time s) * (8 * ?r) - 1"
      using r by (simp add: field_simps)
    finally have "\<lceil>(timestep - sim_time s') * (8 * ?r)\<rceil>
        \<le> \<lceil>(timestep - sim_time s) * (8 * ?r) - 1\<rceil>"
      by (rule ceiling_mono)
    then have "nat \<lceil>(timestep - sim_time s') * (8 * ?r)\<rceil> \<le> N"
      using Suc.prems(3) by (simp add: ceiling_diff_one)
    from Suc.IH[OF s'(2) t0 this] obtain n s1 where n: "n \<le> N"
      "transcription_loop env self cn timestep s' = Some (Inr s1)"
      "iterations env self cn n s' = Inr s1" "timestep \<le> sim_time s1" by blast
    from True s'(1) n(2) have "transcription_loop env self cn timestep s = Some (Inr s1)"
      by (subst transcription_loop.simps) simp
    moreover have "iterations env self cn (Suc n) s = Inr s1"
      using s'(1) n(3) by simp
    ultimately show ?thesis using n(1,4) by (intro exI[of _ "Suc n"] exI[of _ s1]) simp
  qed
qed

lemma well_formed_initial:
  assumes "chromosome_well_formed env c0"
  shows "\<exists>s0. initial_locals env self c0 u = Inr s0
             \<and> domains_consistent env (chromosome_promoter_copy_numbers env c0) s0"
  using assms unfolding chromosome_well_formed_def
  by (intro initial_locals_consistent) blast+

lemma initial_locals_time: "initial_locals env self c0 u = Inr s0 \<Longrightarrow> sim_time s0 = 0"
  by (auto simp: initial_locals_def Let_def split: sum.splits)

lemma next_update_returns:
  assumes "0 < elongation_rate self" and "elongation_rate self \<le> 2 powi 1021"
    and "timestep * elongation_rate self \<le> 2 powi 50"
    and "\<forall>c. 1 \<le> chromosome_terminator_distance env c"
    and "chromosome_well_formed env chromosome0"
    and "promoter_count self \<le> length (chromosome_promoter_order env)"
    and "reports_firing_sequences env (promoter_count self)
           (chromosome_promoter_copy_numbers env chromosome0)"
  shows "\<exists>n s0 s1. n \<le> nat \<lceil>timestep * (8 * elongation_rate self)\<rceil>
           \<and> initial_locals env self chromosome0 original_unbound_rnaps = Inr s0
           \<and> iterations env self (chromosome_promoter_copy_numbers env chromosome0) n s0 = Inr s1
           \<and> timestep \<le> sim_time s1
           \<and> Transcription_next_update env self timestep chromosome0 original_unbound_rnaps
               = Some (Inr (finish_update env self original_unbound_rnaps s1))"
proof -
  let ?cn = "chromosome_promoter_copy_numbers env chromosome0"
  from well_formed_initial[OF assms(5)] obtain s0 where s0:
    "initial_locals env self chromosome0 original_unbound_rnaps = Inr s0"
    "domains_consistent env ?cn s0" by blast
  from initial_locals_time[OF s0(1)] have t0: "sim_time s0 = 0" .
  then have "0 \<le> sim_time s0"
    "nat \<lceil>(timestep - sim_time s0) * (8 * elongation_rate self)\<rceil>
       \<le> nat \<lceil>timestep * (8 * elongation_rate self)\<rceil>" by simp_all
  from loop_returns[OF assms(1,2,3,4,6,7) s0(2) this] obtain n s1 where n:
    "n \<le> nat \<lceil>timestep * (8 * elongation_rate self)\<rceil>"
    "transcription_loop env self ?cn timestep s0 = Some (Inr s1)"
    "iterations env self ?cn n s0 = Inr s1" "timestep \<le> sim_time s1" by blast
  have "Transcription_next_update env self timestep chromosome0 original_unbound_rnaps
      = Some (Inr (finish_update env self original_unbound_rnaps s1))"
    by (simp add: Transcription_next_update_def s0(1) n(2))
  with s0(1) n(1,3,4) show ?thesis by blast
qed

text \<open>
  C7 (as amended). Let the elongation rate lie between \<open>2^-500\<close> and \<open>2^500\<close> and the
  terminator distance, at every iteration, between 1 and \<open>2^500\<close> monomers; let the
  product of timestep and rate be at most \<open>2^50\<close>; let the chromosome be well formed and
  the initiation system report only firing sequences. Then the while loop of
  \<open>next_update\<close> stops after at most \<open>\<lceil>8 * timestep * elongation_rate\<rceil>\<close> iterations, none
  of which raises, with the clock at or past the timestep, and \<open>next_update\<close> returns the
  update built from the final state. (Each iteration advances the rounded clock by at
  least \<open>1 / (8 * elongation_rate)\<close>; the bounds keep every interval and every clock
  value in the range of the normal finite doubles.)
\<close>

theorem transcription_returns_update:
  assumes "2 powi (- 500) \<le> elongation_rate self" and "elongation_rate self \<le> 2 powi 500"
    and "timestep * elongation_rate self \<le> 2 powi 50"
    and "\<forall>c. 1 \<le> chromosome_terminator_distance env c
           \<and> chromosome_terminator_distance env c \<le> 2 powi 500"
    and "chromosome_well_formed env chromosome0"
    and "promoter_count self \<le> length (chromosome_promoter_order env)"
    and "reports_firing_sequences env (promoter_count self)
           (chromosome_promoter_copy_numbers env chromosome0)"
  shows "\<exists>n s0 s1. n \<le> nat \<lceil>timestep * (8 * elongation_rate self)\<rceil>
          \<and> initial_locals env self chromosome0 original_unbound_rnaps = Inr s0
          \<and> iterations env self (chromosome_promoter_copy_numbers env chromosome0) n s0 = Inr s1
          \<and> timestep \<le> sim_time s1
          \<and> Transcription_next_update env self timestep chromosome0 original_unbound_rnaps
               = Some (Inr (finish_update env self original_unbound_rnaps s1))"
proof -
  have "(0::rat) < 2 powi (- 500)" by simp
  from this assms(1) have pos: "0 < elongation_rate self" by (rule less_le_trans)
  have "(2::rat) powi 500 \<le> 2 powi 1021" by (intro power_int_increasing) simp_all
  with assms(2) have up: "elongation_rate self \<le> 2 powi 1021" by (rule order_trans)
  from assms(4) have dist: "\<forall>c. 1 \<le> chromosome_terminator_distance env c" by blast
  show ?thesis
    by (rule next_update_returns[OF pos up assms(3) dist assms(5,6,7)])
qed

lemma toy_well_formed: "chromosome_well_formed toy_collaborators 0"
  by (simp add: chromosome_well_formed_def toy_collaborators_def initially_bound_def)

lemma toy_reports_firing_sequences:
  "reports_firing_sequences toy_collaborators (promoter_count toy_transcription)
     (chromosome_promoter_copy_numbers toy_collaborators 0)"
proof -
  have "firing_sequence 1 [1] b
      (map snd (if k = 0 \<and> 0 < (map2 (-) [1] b @ b @ [u]) ! 0 then [(0 :: rat, 0 :: nat)] else []))"
    if "length b = 1" for b :: "int list" and k :: nat and u :: int
  proof -
    from that obtain x where b: "b = [x]" by (cases b) auto
    show ?thesis by (simp add: b)
  qed
  then show ?thesis
    by (simp add: reports_firing_sequences_def toy_collaborators_def toy_transcription_def)
qed

lemma toy_rate_bounds:
  "2 powi (- 500) \<le> elongation_rate toy_transcription"
  "elongation_rate toy_transcription \<le> 2 powi 500"
  "1 * elongation_rate toy_transcription \<le> 2 powi 50"
  "\<forall>c. 1 \<le> chromosome_terminator_distance toy_collaborators c
      \<and> chromosome_terminator_distance toy_collaborators c \<le> 2 powi 500"
  "promoter_count toy_transcription \<le> length (chromosome_promoter_order toy_collaborators)"
  by (simp_all add: toy_transcription_def toy_collaborators_def power_int_minus)

theorem transcription_returns_update_witness:
  "2 powi (- 500) \<le> elongation_rate toy_transcription
   \<and> elongation_rate toy_transcription \<le> 2 powi 500
   \<and> 1 * elongation_rate toy_transcription \<le> 2 powi 50
   \<and> (\<forall>c. 1 \<le> chromosome_terminator_distance toy_collaborators c
         \<and> chromosome_terminator_distance toy_collaborators c \<le> 2 powi 500)
   \<and> chromosome_well_formed toy_collaborators 0
   \<and> promoter_count toy_transcription \<le> length (chromosome_promoter_order toy_collaborators)
   \<and> reports_firing_sequences toy_collaborators (promoter_count toy_transcription)
        (chromosome_promoter_copy_numbers toy_collaborators 0)
   \<and> (\<exists>n s0 s1. n \<le> nat \<lceil>1 * (8 * elongation_rate toy_transcription)\<rceil>
        \<and> initial_locals toy_collaborators toy_transcription 0 10 = Inr s0
        \<and> iterations toy_collaborators toy_transcription
             (chromosome_promoter_copy_numbers toy_collaborators 0) n s0 = Inr s1
        \<and> 1 \<le> sim_time s1
        \<and> Transcription_next_update toy_collaborators toy_transcription 1 0 10
             = Some (Inr (finish_update toy_collaborators toy_transcription 10 s1)))"
  using transcription_returns_update[OF toy_rate_bounds(1,2,3,4) toy_well_formed
      toy_rate_bounds(5) toy_reports_firing_sequences, of 10]
    toy_rate_bounds toy_well_formed toy_reports_firing_sequences
  by blast

lemma round_double_2_53 [simp]: "round_double 9007199254740992 = 9007199254740992"
  using round_double_of_int[of 9007199254740992] by simp

lemma stalling_iteration:
  assumes "sim_time s = 9007199254740992" "chromosome s \<noteq> 0"
  shows "\<exists>s'. iteration stalling_collaborators stalling_transcription [] s = Inr s'
           \<and> sim_time s' = 9007199254740992 \<and> chromosome s' \<noteq> 0"
  using assms
  by (simp add: iteration_def stalling_collaborators_def stalling_transcription_def Let_def
      double_div_def double_2_53_plus_1 substrate_def)

lemma stalling_loop_never_returns:
  assumes "transcription_loop env self cn timestep s = Some y"
  shows "\<not> (env = stalling_collaborators \<and> self = stalling_transcription \<and> cn = []
            \<and> timestep = 18014398509481984
            \<and> sim_time s = 9007199254740992 \<and> chromosome s \<noteq> 0)"
proof (rule transcription_loop.raw_induct[where
      P = "\<lambda>env self cn timestep s y.
        \<not> (env = stalling_collaborators \<and> self = stalling_transcription \<and> cn = []
            \<and> timestep = 18014398509481984
            \<and> sim_time s = 9007199254740992 \<and> chromosome s \<noteq> 0)", OF _ assms])
  fix loop env self cn and timestep :: rat and s :: "(nat, nat, nat) locals" and y
  assume IH: "\<And>env self cn timestep s y. loop env self cn timestep s = Some y \<Longrightarrow>
        \<not> (env = stalling_collaborators \<and> self = stalling_transcription \<and> cn = []
            \<and> timestep = 18014398509481984
            \<and> sim_time s = 9007199254740992 \<and> chromosome s \<noteq> 0)"
    and body: "(if sim_time s < timestep
      then case iteration env self cn s of Inl e \<Rightarrow> Some (Inl e)
           | Inr s' \<Rightarrow> loop env self cn timestep s'
      else Some (Inr s)) = Some y"
  show "\<not> (env = stalling_collaborators \<and> self = stalling_transcription \<and> cn = []
            \<and> timestep = 18014398509481984
            \<and> sim_time s = 9007199254740992 \<and> chromosome s \<noteq> 0)"
  proof
    assume a: "env = stalling_collaborators \<and> self = stalling_transcription \<and> cn = []
            \<and> timestep = 18014398509481984
            \<and> sim_time s = 9007199254740992 \<and> chromosome s \<noteq> 0"
    then obtain s' where s': "iteration env self cn s = Inr s'"
      "sim_time s' = 9007199254740992" "chromosome s' \<noteq> 0"
      using stalling_iteration[of s] by auto
    from a have "sim_time s < timestep" by simp
    with body s'(1) have "loop env self cn timestep s' = Some y" by simp
    from IH[OF this] a s'(2,3) show False by blast
  qed
qed

text \<open>
  A positive rate and positive distances do not suffice. With rate \<open>1.0\<close>, a first
  terminator \<open>2^53\<close> monomers away and every later one at distance 1, the clock reaches
  \<open>2^53\<close> after the first iteration; from then on \<open>time += 1.0\<close> is a tie that rounds
  back to \<open>2^53\<close>, the clock stays below the timestep \<open>2^54\<close>, and \<open>next_update\<close> never
  returns.
\<close>

theorem transcription_loop_stalls:
  "0 < elongation_rate stalling_transcription
   \<and> (\<forall>c. 0 < chromosome_terminator_distance stalling_collaborators c)
   \<and> (0 :: rat) < 18014398509481984
   \<and> is_double (elongation_rate stalling_transcription)
   \<and> (\<forall>c. is_double (chromosome_terminator_distance stalling_collaborators c))
   \<and> is_double 18014398509481984
   \<and> Transcription_next_update stalling_collaborators stalling_transcription
        18014398509481984 0 10 = None"
proof -
  define s0 :: "(nat, nat, nat) locals" where "s0 =
    \<lparr>chromosome = 0, bound_rnap = [], open_domains = Map.empty, bound_domains = Map.empty,
     promoter_rnaps = Map.empty, unbound_rnaps = 10, sim_time = 0, random_calls = 0\<rparr>"
  have i: "initial_locals stalling_collaborators stalling_transcription 0 10 = Inr s0"
    by (simp add: initial_locals_def stalling_collaborators_def stalling_transcription_def s0_def)
  have "\<exists>s1. iteration stalling_collaborators stalling_transcription [] s0 = Inr s1
           \<and> sim_time s1 = 9007199254740992 \<and> chromosome s1 \<noteq> 0"
    by (simp add: iteration_def stalling_collaborators_def stalling_transcription_def Let_def
        double_div_def double_add_def substrate_def s0_def)
  then obtain s1 where s1:
    "iteration stalling_collaborators stalling_transcription [] s0 = Inr s1"
    "sim_time s1 = 9007199254740992" "chromosome s1 \<noteq> 0" by blast
  have l1: "transcription_loop stalling_collaborators stalling_transcription []
      18014398509481984 s1 = None"
  proof (cases "transcription_loop stalling_collaborators stalling_transcription []
      18014398509481984 s1")
    case None
    then show ?thesis .
  next
    case (Some y)
    from stalling_loop_never_returns[OF Some] s1(2,3) show ?thesis by simp
  qed
  have "transcription_loop stalling_collaborators stalling_transcription []
      18014398509481984 s0 = None"
    by (subst transcription_loop.simps) (simp add: s1(1) l1, simp add: s0_def)
  moreover have "chromosome_promoter_copy_numbers stalling_collaborators 0 = []"
    by (simp add: stalling_collaborators_def)
  ultimately have "Transcription_next_update stalling_collaborators stalling_transcription
        18014398509481984 0 10 = None"
    by (simp add: Transcription_next_update_def i)
  moreover have "is_double 1" using is_double_of_int[of 1] by simp
  moreover have "is_double 9007199254740992" using is_double_of_int[of 9007199254740992] by simp
  moreover have "is_double 18014398509481984"
    by (rule is_double_I[where k = 54 and n = 4503599627370496]) simp_all
  ultimately show ?thesis
    by (simp add: stalling_collaborators_def stalling_transcription_def)
qed

end
